theory Spec2Isabelle
  imports Main
begin

section \<open>Strings of the host language\<close>

text \<open>
  The library works on JavaScript strings.  A string is modelled as a \<^typ>\<open>string\<close>, each
  \<^typ>\<open>char\<close> standing for the code unit of the same number (U+0000 to U+00FF).  Within
  that range the white space of \<^verbatim>\<open>String.prototype.trim\<close> is TAB, LF, VT, FF, CR, SPACE
  and NBSP, and the line terminators (the characters \<^verbatim>\<open>.\<close> refuses in a regular expression)
  are LF and CR.
\<close>

abbreviation BSL :: char where
  "BSL \<equiv> CHR 0x5C"

abbreviation LF :: char where
  "LF \<equiv> CHR 0x0A"

abbreviation CR :: char where
  "CR \<equiv> CHR 0x0D"

definition isWhiteSpace :: "char \<Rightarrow> bool" where
  "isWhiteSpace c =
     (c = CHR 0x09 \<or> c = CHR 0x0A \<or> c = CHR 0x0B \<or> c = CHR 0x0C \<or> c = CHR 0x0D \<or>
      c = CHR 0x20 \<or> c = CHR 0xA0)"

definition isLineTerminator :: "char \<Rightarrow> bool" where
  "isLineTerminator c = (c = LF \<or> c = CR)"

definition trimStart :: "string \<Rightarrow> string" where
  "trimStart s = dropWhile isWhiteSpace s"

definition trimEnd :: "string \<Rightarrow> string" where
  "trimEnd s = rev (dropWhile isWhiteSpace (rev s))"

definition trim :: "string \<Rightarrow> string" where
  "trim s = trimEnd (trimStart s)"

definition startsWith :: "string \<Rightarrow> string \<Rightarrow> bool" where
  "startsWith s p = (take (length p) s = p)"

definition endsWith :: "string \<Rightarrow> string \<Rightarrow> bool" where
  "endsWith s p = (length p \<le> length s \<and> drop (length s - length p) s = p)"

text \<open>\<^verbatim>\<open>s.slice(1)\<close>: the string without its first code unit.\<close>

definition slice1 :: "string \<Rightarrow> string" where
  "slice1 s = drop 1 s"

text \<open>\<^verbatim>\<open>s.indexOf(c)\<close>: the first index of the character, or -1.\<close>

fun indexOf :: "string \<Rightarrow> char \<Rightarrow> int" where
  "indexOf [] c = - 1"
| "indexOf (x # xs) c =
     (if x = c then 0 else (let i = indexOf xs c in if i < 0 then - 1 else i + 1))"

section \<open>Glob translator\<close>

text \<open>
  The brace escaping of \<^verbatim>\<open>convertIgnorePatternToMinimatch\<close> is
  \<^verbatim>\<open>replaceAll(/(?=((?:\\.|[^{(])*))\1([{(])/guy, '$1\\$2')\<close>.
  The expression is sticky: every match starts where the previous one ended.  Its look-ahead
  captures, greedily and without giving anything back, a run of items, each either a backslash
  with the character after it (any but a line terminator) or one character other than
  \<^verbatim>\<open>{\<close> and \<^verbatim>\<open>(\<close>; the back-reference consumes that run; the second group
  needs \<^verbatim>\<open>{\<close> or \<^verbatim>\<open>(\<close> next.
\<close>

definition isBrace :: "char \<Rightarrow> bool" where
  "isBrace c = (c = CHR ''{'' \<or> c = CHR ''('')"

text \<open>The first capture and what follows it.\<close>

fun scanUnbraced :: "string \<Rightarrow> string \<times> string" where
  "scanUnbraced [] = ([], [])"
| "scanUnbraced [c] = (if isBrace c then ([], [c]) else ([c], []))"
| "scanUnbraced (c # d # cs) =
     (if c = BSL \<and> \<not> isLineTerminator d then
        (case scanUnbraced cs of (m, r) \<Rightarrow> (c # d # m, r))
      else if isBrace c then ([], c # d # cs)
      else (case scanUnbraced (d # cs) of (m, r) \<Rightarrow> (c # m, r)))"

text \<open>One sticky match at the start of the text: both captures and the rest.\<close>

definition execBrace :: "string \<Rightarrow> (string \<times> char \<times> string) option" where
  "execBrace s =
     (case scanUnbraced s of
        (m, []) \<Rightarrow> None
      | (m, b # r) \<Rightarrow> if isBrace b then Some (m, b, r) else None)"

lemma scanUnbraced_length:
  "scanUnbraced s = (m, r) \<Longrightarrow> length m + length r = length s"
  by (induction s arbitrary: m r rule: scanUnbraced.induct)
     (auto split: if_splits prod.splits)

lemma execBrace_shorter:
  "execBrace s = Some (m, b, r) \<Longrightarrow> length r < length s"
  by (auto simp: execBrace_def split: prod.splits list.splits if_splits
           dest: scanUnbraced_length)

text \<open>The replacement loop: each match becomes \<^verbatim>\<open>$1\$2\<close>; the text after the last
  match is kept.\<close>

function replaceAllBraces :: "string \<Rightarrow> string" where
  "replaceAllBraces s =
     (case execBrace s of
        None \<Rightarrow> s
      | Some (m, b, r) \<Rightarrow> m @ BSL # b # replaceAllBraces r)"
  by pat_completeness auto
termination
  by (relation "measure length") (auto dest: execBrace_shorter)

declare replaceAllBraces.simps [simp del]

text \<open>The local constants of \<^verbatim>\<open>convertIgnorePatternToMinimatch\<close>, each as a function of
  what it is computed from.\<close>

definition negatedPrefix :: "string \<Rightarrow> string" where
  "negatedPrefix pattern = (if startsWith pattern ''!'' then ''!'' else '''')"

definition patternToTest :: "string \<Rightarrow> string" where
  "patternToTest pattern =
     trimEnd (if startsWith pattern ''!'' then slice1 pattern else pattern)"

definition isSpecialCase :: "string \<Rightarrow> bool" where
  "isSpecialCase t = (t \<in> set ['''', ''**'', ''/**'', ''**/''])"

definition matchEverywherePrefix :: "string \<Rightarrow> string" where
  "matchEverywherePrefix t =
     (let firstIndexOfSlash = indexOf t (CHR ''/'')
      in if firstIndexOfSlash < 0 \<or> firstIndexOfSlash = int (length t) - 1
         then ''**/'' else '''')"

definition patternWithoutLeadingSlash :: "string \<Rightarrow> string" where
  "patternWithoutLeadingSlash t = (if indexOf t (CHR ''/'') = 0 then slice1 t else t)"

definition matchInsideSuffix :: "string \<Rightarrow> string" where
  "matchInsideSuffix t = (if endsWith t ''/**'' then ''/*'' else '''')"

definition convertIgnorePatternToMinimatch :: "string \<Rightarrow> string" where
  "convertIgnorePatternToMinimatch pattern =
     (let t = patternToTest pattern
      in if isSpecialCase t then negatedPrefix pattern @ t
         else negatedPrefix pattern @ matchEverywherePrefix t
                @ replaceAllBraces (patternWithoutLeadingSlash t) @ matchInsideSuffix t)"

section \<open>Tokenizer\<close>

text \<open>\<^verbatim>\<open>content.split(/\r?\n/)\<close>: a line ends at LF or at CR LF; a CR with no LF after
  it stays in its line.\<close>

fun splitLines :: "string \<Rightarrow> string list" where
  "splitLines [] = [[]]"
| "splitLines [c] = (if c = LF then [[], []] else [[c]])"
| "splitLines (c # d # cs) =
     (if c = LF then [] # splitLines (d # cs)
      else if c = CR \<and> d = LF then [] # splitLines cs
      else (case splitLines (d # cs) of
              [] \<Rightarrow> [[c]]
            | l # ls \<Rightarrow> (c # l) # ls))"

text \<open>A \<^verbatim>\<open>Set\<close> keeps its members in insertion order; \<^verbatim>\<open>[...new Set(patterns)]\<close>
  adds the patterns one by one and lists the members.\<close>

definition setAdd :: "'a list \<Rightarrow> 'a \<Rightarrow> 'a list" where
  "setAdd members x = (if x \<in> set members then members else members @ [x])"

definition dedupe :: "string list \<Rightarrow> string list" where
  "dedupe patterns = foldl setAdd [] patterns"

record ParseOptions =
  opt_dedupe :: "bool option"

record ParsePathOptions = ParseOptions +
  opt_strict :: "bool option"

text \<open>The loop of \<^verbatim>\<open>parse\<close> over the lines, \<open>patterns\<close> being the array it pushes to.\<close>

fun collectPatterns :: "string list \<Rightarrow> string list \<Rightarrow> string list" where
  "collectPatterns patterns [] = patterns"
| "collectPatterns patterns (line # lines) =
     (let value = trim line
      in if value \<noteq> [] \<and> \<not> startsWith value ''#''
         then collectPatterns (patterns @ [value]) lines
         else collectPatterns patterns lines)"

definition parse :: "string \<Rightarrow> 'a ParseOptions_scheme \<Rightarrow> string list" where
  "parse content options =
     (let patterns = collectPatterns [] (splitLines content)
      in if (case opt_dedupe options of None \<Rightarrow> True | Some b \<Rightarrow> b)
         then dedupe patterns
         else patterns)"

subsection \<open>Reading a file\<close>

text \<open>
  The file system as \<^verbatim>\<open>node:fs\<close> shows it to \<^verbatim>\<open>parsePath\<close>: a path names nothing, a
  directory, or a file with its text.  \<^verbatim>\<open>existsSync\<close> is true of files and directories;
  \<^verbatim>\<open>readFileSync\<close> throws on a directory (EISDIR) and on a missing path (ENOENT).
\<close>

datatype fs_node = File string | Directory

type_synonym filesystem = "string \<Rightarrow> fs_node option"

datatype js_error = Error string | EISDIR | ENOENT

definition existsSync :: "filesystem \<Rightarrow> string \<Rightarrow> bool" where
  "existsSync fs filepath = (fs filepath \<noteq> None)"

definition readFileSync :: "filesystem \<Rightarrow> string \<Rightarrow> js_error + string" where
  "readFileSync fs filepath =
     (case fs filepath of
        None \<Rightarrow> Inl ENOENT
      | Some Directory \<Rightarrow> Inl EISDIR
      | Some (File text) \<Rightarrow> Inr text)"

definition invalidFileMessage :: "string \<Rightarrow> string" where
  "invalidFileMessage filepath = [CHR 0x22] @ filepath @ [CHR 0x22] @ '': invalid file path.''"

definition parsePath :: "filesystem \<Rightarrow> string \<Rightarrow> ParsePathOptions \<Rightarrow> js_error + string list" where
  "parsePath fs filepath options =
     (let strict = (case opt_strict options of None \<Rightarrow> True | Some b \<Rightarrow> b)
      in if \<not> existsSync fs filepath
         then (if strict then Inl (Error (invalidFileMessage filepath)) else Inr [])
         else (case readFileSync fs filepath of
                 Inl e \<Rightarrow> Inl e
               | Inr text \<Rightarrow> Inr (parse text options)))"

section \<open>Regular expressions of the host language\<close>

text \<open>
  \<^verbatim>\<open>toRegex\<close> writes the source text of a regular expression and hands it to
  \<^verbatim>\<open>new RegExp\<close>, which throws a \<^verbatim>\<open>SyntaxError\<close> on a text that is no pattern;
  \<^verbatim>\<open>ignore\<close> calls \<^verbatim>\<open>test\<close> on the result.  Both are modelled after ECMA-262
  (patterns without flags, with the Annex B grammar of web browsers and Node): the
  constructor as a reader of the source text, \<^verbatim>\<open>test\<close> by the standard's matchers in
  continuation-passing style.

  The fragment read here: literal characters, \<^verbatim>\<open>.\<close>, \<^verbatim>\<open>^\<close>, \<^verbatim>\<open>$\<close>, \<^verbatim>\<open>|\<close>,
  capturing groups, the quantifiers \<^verbatim>\<open>*\<close>, \<^verbatim>\<open>+\<close>, \<^verbatim>\<open>?\<close> and their lazy forms,
  identity escapes of characters that are neither letters nor digits, and character classes
  of single characters.  Anything else (group specifiers \<^verbatim>\<open>(?\<close>, braces, escapes of
  letters and digits, ranges in classes) is answered with \<open>Unsupported\<close>, which is not an
  outcome of the real constructor: a result about \<^verbatim>\<open>toRegex\<close> has to show that it does not
  arise.
\<close>

datatype regex =
    Empty
  | Chr char
  | AnyChar
  | CharClass bool "char list"
  | BOL
  | EOL
  | Seq regex regex
  | Alt regex regex
  | Group regex
  | Star regex
  | Plus regex
  | Opt regex

datatype syntax_error =
    NothingToRepeat
  | UnterminatedGroup
  | UnmatchedParen
  | UnterminatedClass
  | TrailingBackslash
  | Unsupported

subsection \<open>Reading a pattern\<close>

text \<open>
  What a quantifier would apply to: nothing (at the start of an alternative, or after an
  assertion), an atom, or a term that has its quantifier already (where only the \<^verbatim>\<open>?\<close>
  of the lazy form may follow).
\<close>

datatype qstate = NoAtom | Atom | Quantified | Lazy

text \<open>A disjunction being read: the alternatives that are complete and the terms of the
  current one, both latest first.\<close>

datatype frame = Frame "regex list" "regex list" qstate

datatype mode =
    Normal
  | AfterOpen
  | Escape
  | ClassOpen
  | InClass bool "char list"
  | ClassEscape bool "char list"

datatype pstate = PState mode frame "frame list"

fun mkSeq :: "regex list \<Rightarrow> regex" where
  "mkSeq [] = Empty"
| "mkSeq (t # ts) = Seq t (mkSeq ts)"

fun mkAlt :: "regex list \<Rightarrow> regex" where
  "mkAlt [] = Empty"
| "mkAlt [a] = a"
| "mkAlt (a # b # bs) = Alt a (mkAlt (b # bs))"

fun closeFrame :: "frame \<Rightarrow> regex" where
  "closeFrame (Frame as ts q) = mkAlt (rev (mkSeq (rev ts) # as))"

fun addAtom :: "regex \<Rightarrow> frame \<Rightarrow> frame" where
  "addAtom r (Frame as ts q) = Frame as (r # ts) Atom"

fun addAssertion :: "regex \<Rightarrow> frame \<Rightarrow> frame" where
  "addAssertion r (Frame as ts q) = Frame as (r # ts) NoAtom"

fun nextAlternative :: "frame \<Rightarrow> frame" where
  "nextAlternative (Frame as ts q) = Frame (mkSeq (rev ts) # as) [] NoAtom"

fun quantify :: "(regex \<Rightarrow> regex) \<Rightarrow> frame \<Rightarrow> syntax_error + frame" where
  "quantify f (Frame as (t # ts) Atom) = Inr (Frame as (f t # ts) Quantified)"
| "quantify f (Frame as ts q) = Inl NothingToRepeat"

fun questionMark :: "frame \<Rightarrow> syntax_error + frame" where
  "questionMark (Frame as ts Quantified) = Inr (Frame as ts Lazy)"
| "questionMark (Frame as ts q) = quantify Opt (Frame as ts q)"

definition isAlnum :: "char \<Rightarrow> bool" where
  "isAlnum c =
     (let n = (of_char c :: nat)
      in (48 \<le> n \<and> n \<le> 57) \<or> (65 \<le> n \<and> n \<le> 90) \<or> (97 \<le> n \<and> n \<le> 122))"

definition inFrame :: "frame list \<Rightarrow> syntax_error + frame \<Rightarrow> syntax_error + pstate" where
  "inFrame stack res = (case res of Inl e \<Rightarrow> Inl e | Inr f \<Rightarrow> Inr (PState Normal f stack))"

definition stepNormal :: "char \<Rightarrow> frame \<Rightarrow> frame list \<Rightarrow> syntax_error + pstate" where
  "stepNormal ch f stack =
     (if ch = CHR ''('' then Inr (PState AfterOpen (Frame [] [] NoAtom) (f # stack))
      else if ch = CHR '')'' then
        (case stack of
           [] \<Rightarrow> Inl UnmatchedParen
         | g # stack' \<Rightarrow> Inr (PState Normal (addAtom (Group (closeFrame f)) g) stack'))
      else if ch = CHR ''|'' then Inr (PState Normal (nextAlternative f) stack)
      else if ch = CHR ''*'' then inFrame stack (quantify Star f)
      else if ch = CHR ''+'' then inFrame stack (quantify Plus f)
      else if ch = CHR ''?'' then inFrame stack (questionMark f)
      else if ch = CHR ''.'' then Inr (PState Normal (addAtom AnyChar f) stack)
      else if ch = CHR ''^'' then Inr (PState Normal (addAssertion BOL f) stack)
      else if ch = CHR ''$'' then Inr (PState Normal (addAssertion EOL f) stack)
      else if ch = CHR ''['' then Inr (PState ClassOpen f stack)
      else if ch = BSL then Inr (PState Escape f stack)
      else if ch = CHR ''{'' then Inl Unsupported
      else Inr (PState Normal (addAtom (Chr ch) f) stack))"

definition stepClass :: "bool \<Rightarrow> char list \<Rightarrow> char \<Rightarrow> frame \<Rightarrow> frame list \<Rightarrow> syntax_error + pstate" where
  "stepClass neg members ch f stack =
     (if ch = CHR '']'' then Inr (PState Normal (addAtom (CharClass neg (rev members)) f) stack)
      else if ch = BSL then Inr (PState (ClassEscape neg members) f stack)
      else if ch = CHR ''-'' \<and> members \<noteq> [] then Inl Unsupported
      else Inr (PState (InClass neg (ch # members)) f stack))"

fun step :: "pstate \<Rightarrow> char \<Rightarrow> syntax_error + pstate" where
  "step (PState Normal f stack) ch = stepNormal ch f stack"
| "step (PState AfterOpen f stack) ch =
     (if ch = CHR ''?'' then Inl Unsupported else stepNormal ch f stack)"
| "step (PState Escape f stack) ch =
     (if isAlnum ch then Inl Unsupported else Inr (PState Normal (addAtom (Chr ch) f) stack))"
| "step (PState ClassOpen f stack) ch =
     (if ch = CHR ''^'' then Inr (PState (InClass True []) f stack)
      else stepClass False [] ch f stack)"
| "step (PState (InClass neg members) f stack) ch = stepClass neg members ch f stack"
| "step (PState (ClassEscape neg members) f stack) ch =
     (if isAlnum ch then Inl Unsupported
      else Inr (PState (InClass neg (ch # members)) f stack))"

fun finish :: "pstate \<Rightarrow> syntax_error + regex" where
  "finish (PState Normal f []) = Inr (closeFrame f)"
| "finish (PState Normal f (g # stack)) = Inl UnterminatedGroup"
| "finish (PState AfterOpen f stack) = Inl UnterminatedGroup"
| "finish (PState Escape f stack) = Inl TrailingBackslash"
| "finish (PState ClassOpen f stack) = Inl UnterminatedClass"
| "finish (PState (InClass neg members) f stack) = Inl UnterminatedClass"
| "finish (PState (ClassEscape neg members) f stack) = Inl UnterminatedClass"

fun readPattern :: "pstate \<Rightarrow> string \<Rightarrow> syntax_error + regex" where
  "readPattern st [] = finish st"
| "readPattern st (ch # cs) =
     (case step st ch of Inl e \<Rightarrow> Inl e | Inr st' \<Rightarrow> readPattern st' cs)"

text \<open>\<^verbatim>\<open>new RegExp(source)\<close>.\<close>

definition newRegExp :: "string \<Rightarrow> syntax_error + regex" where
  "newRegExp source = readPattern (PState Normal (Frame [] [] NoAtom) []) source"

subsection \<open>Matching\<close>

text \<open>
  A matcher takes the state of the match and a continuation, as in the standard.  The state
  is the rest of the input and whether the match stands at index 0 (all that \<^verbatim>\<open>^\<close> asks
  when there is no multiline flag).  No construct of the fragment reads a capture, so the
  result of a match is a truth value.

  \<open>repeatMatcher\<close> is the standard's RepeatMatcher with minimum 0: one more round of the
  atom, refused when it consumed nothing, or the continuation.  Its first argument bounds the
  number of rounds; a round consumes a character, so the length of the rest is bound enough
  for \<^verbatim>\<open>*\<close> and \<^verbatim>\<open>+\<close>, and \<^verbatim>\<open>?\<close> is the bound 1.
\<close>

type_synonym mstate = "bool \<times> string"

primrec repeatMatcher ::
  "nat \<Rightarrow> (mstate \<Rightarrow> (mstate \<Rightarrow> bool) \<Rightarrow> bool) \<Rightarrow> mstate \<Rightarrow> (mstate \<Rightarrow> bool) \<Rightarrow> bool" where
  "repeatMatcher 0 m x c = c x"
| "repeatMatcher (Suc n) m x c =
     (m x (\<lambda>y. length (snd y) \<noteq> length (snd x) \<and> repeatMatcher n m y c) \<or> c x)"

primrec matcher :: "regex \<Rightarrow> mstate \<Rightarrow> (mstate \<Rightarrow> bool) \<Rightarrow> bool" where
  "matcher Empty x c = c x"
| "matcher (Chr a) x c =
     (case snd x of [] \<Rightarrow> False | ch # cs \<Rightarrow> ch = a \<and> c (False, cs))"
| "matcher AnyChar x c =
     (case snd x of [] \<Rightarrow> False | ch # cs \<Rightarrow> \<not> isLineTerminator ch \<and> c (False, cs))"
| "matcher (CharClass neg members) x c =
     (case snd x of [] \<Rightarrow> False | ch # cs \<Rightarrow> (ch \<in> set members) \<noteq> neg \<and> c (False, cs))"
| "matcher BOL x c = (fst x \<and> c x)"
| "matcher EOL x c = (snd x = [] \<and> c x)"
| "matcher (Seq r1 r2) x c = matcher r1 x (\<lambda>y. matcher r2 y c)"
| "matcher (Alt r1 r2) x c = (matcher r1 x c \<or> matcher r2 x c)"
| "matcher (Group r) x c = matcher r x c"
| "matcher (Star r) x c = repeatMatcher (length (snd x)) (matcher r) x c"
| "matcher (Plus r) x c =
     matcher r x (\<lambda>y. repeatMatcher (length (snd y)) (matcher r) y c)"
| "matcher (Opt r) x c = repeatMatcher 1 (matcher r) x c"

text \<open>\<^verbatim>\<open>regex.test(s)\<close> without the global and sticky flags: a match is tried at every
  index from 0 to the length of the text.\<close>

fun searchFrom :: "regex \<Rightarrow> bool \<Rightarrow> string \<Rightarrow> bool" where
  "searchFrom r atStart [] = matcher r (atStart, []) (\<lambda>y. True)"
| "searchFrom r atStart (ch # cs) =
     (matcher r (atStart, ch # cs) (\<lambda>y. True) \<or> searchFrom r False cs)"

definition test :: "regex \<Rightarrow> string \<Rightarrow> bool" where
  "test r s = searchFrom r True s"

section \<open>Regex compiler and matcher\<close>

definition isRegexSpecial :: "char \<Rightarrow> bool" where
  "isRegexSpecial c = (c \<in> set ''$()+./?[]^{|}-'' \<or> c = BSL)"

text \<open>\<^verbatim>\<open>replaceAll(/[$()+./?[\\\]^{|}\-]/g, '\\$&')\<close>.\<close>

definition escapeRegex :: "string \<Rightarrow> string" where
  "escapeRegex s = concat (map (\<lambda>c. if isRegexSpecial c then [BSL, c] else [c]) s)"

text \<open>\<^verbatim>\<open>s.replace(pat, rep)\<close> for a string \<open>pat\<close> and a replacement without \<^verbatim>\<open>$\<close>.\<close>

fun replaceFirst :: "string \<Rightarrow> string \<Rightarrow> string \<Rightarrow> string" where
  "replaceFirst pat rep [] = (if pat = [] then rep else [])"
| "replaceFirst pat rep (c # cs) =
     (if startsWith (c # cs) pat then rep @ drop (length pat) (c # cs)
      else c # replaceFirst pat rep cs)"

definition anyToken :: string where
  "anyToken = ''(.+)''"

definition segmentToken :: string where
  "segmentToken = ''([^'' @ [BSL] @ ''/]+)''"

definition prepareRegexPattern :: "string \<Rightarrow> string" where
  "prepareRegexPattern pattern =
     replaceFirst ''*'' segmentToken (replaceFirst ''**'' anyToken (escapeRegex pattern))"

text \<open>\<^verbatim>\<open>array.join(sep)\<close>.\<close>

fun join :: "string \<Rightarrow> string list \<Rightarrow> string" where
  "join sep [] = []"
| "join sep [x] = x"
| "join sep (x # y # ys) = x @ sep @ join sep (y # ys)"

record ParsePatternsRegex =
  accepts :: regex
  ignores :: regex

text \<open>The regular expression literal \<^verbatim>\<open>/$^/\<close>, as the reader gives it.\<close>

definition sentinel :: regex where
  "sentinel = Seq EOL (Seq BOL Empty)"

text \<open>The loop of \<^verbatim>\<open>toRegex\<close> over the patterns, with the two arrays it pushes to
  (\<^verbatim>\<open>accepts\<close> and \<^verbatim>\<open>ignores\<close> in the source, \<open>acc\<close> and \<open>ign\<close> here, where the
  two names are the fields of the result); then the source text of one expression, its
  construction, and the pair.\<close>

fun sortPatterns :: "string list \<Rightarrow> string list \<Rightarrow> string list \<Rightarrow> string list \<times> string list" where
  "sortPatterns acc ign [] = (acc, ign)"
| "sortPatterns acc ign (pattern # patterns) =
     (let withExclamation = startsWith pattern ''!'';
          pattern1 = (if withExclamation then slice1 pattern else pattern);
          pattern2 = (if startsWith pattern1 ''/'' then slice1 pattern1 else pattern1)
      in if withExclamation then sortPatterns (acc @ [pattern2]) ign patterns
         else sortPatterns acc (ign @ [pattern2]) patterns)"

definition regexSource :: "string list \<Rightarrow> string" where
  "regexSource xs = ''^('' @ join '')|('' (map prepareRegexPattern xs) @ '')''"

definition compilePatterns :: "string list \<Rightarrow> syntax_error + regex" where
  "compilePatterns xs = (if length xs > 0 then newRegExp (regexSource xs) else Inr sentinel)"

definition toRegex :: "string list \<Rightarrow> syntax_error + ParsePatternsRegex" where
  "toRegex patterns =
     (case sortPatterns [] [] patterns of
        (acc, ign) \<Rightarrow>
          (case compilePatterns acc of
             Inl e \<Rightarrow> Inl e
           | Inr a \<Rightarrow>
               (case compilePatterns ign of
                  Inl e \<Rightarrow> Inl e
                | Inr i \<Rightarrow> Inr \<lparr>accepts = a, ignores = i\<rparr>)))"

definition ignore :: "ParsePatternsRegex \<Rightarrow> string \<Rightarrow> bool" where
  "ignore regex pattern =
     (let value = (if startsWith pattern ''/'' then slice1 pattern else pattern)
      in test (ignores regex) value \<and> \<not> test (accepts regex) value)"

section \<open>Definitions for the statements and their proofs\<close>

text \<open>
  Nothing below this point belongs to the program.  The definitions of this section say, in
  the words of the specification, what some of the functions above are to compute, or name
  what the proofs need; the sections after it hold the properties.
\<close>

subsection \<open>For the glob translator\<close>

text \<open>
  The escaping in the words of the specification: a brace at index \<open>i\<close> is already escaped
  when the run of backslashes that ends just before it has odd length; every other brace gets a
  backslash in front, each one decided from its own index.
\<close>

definition backslashRun :: "string \<Rightarrow> nat \<Rightarrow> nat" where
  "backslashRun s i = length (takeWhile (\<lambda>c. c = BSL) (rev (take i s)))"

definition alreadyEscaped :: "string \<Rightarrow> nat \<Rightarrow> bool" where
  "alreadyEscaped s i = odd (backslashRun s i)"

definition escapeAt :: "string \<Rightarrow> nat \<Rightarrow> string" where
  "escapeAt s i =
     (if isBrace (s ! i) \<and> \<not> alreadyEscaped s i then [BSL, s ! i] else [s ! i])"

definition escapeEachBrace :: "string \<Rightarrow> string" where
  "escapeEachBrace s = concat (map (escapeAt s) [0..<length s])"

text \<open>The same from left to right, for the proofs: the flag says whether the run of
  backslashes just before the next character has odd length.\<close>

fun escapeFrom :: "bool \<Rightarrow> string \<Rightarrow> string" where
  "escapeFrom b [] = []"
| "escapeFrom b (c # cs) =
     (if isBrace c \<and> \<not> b then [BSL, c] else [c]) @ escapeFrom (c = BSL \<and> \<not> b) cs"

subsection \<open>For the tokenizer\<close>

text \<open>The test of the loop on a trimmed line, and the specification's reading of
  \<^verbatim>\<open>dedupe\<close>: the values at the indices where a value occurs for the first time.\<close>

definition keepsLine :: "string \<Rightarrow> bool" where
  "keepsLine v = (v \<noteq> [] \<and> \<not> startsWith v ''#'')"

definition firstOccurrences :: "'a list \<Rightarrow> 'a list" where
  "firstOccurrences ps =
     map (\<lambda>i. ps ! i) (filter (\<lambda>i. ps ! i \<notin> set (take i ps)) [0..<length ps])"

text \<open>For the proofs: the values of a list that are not in a set of values seen before,
  each once, at its first occurrence.\<close>

fun unseen :: "'a set \<Rightarrow> 'a list \<Rightarrow> 'a list" where
  "unseen seen [] = []"
| "unseen seen (p # ps) =
     (if p \<in> seen then unseen seen ps else p # unseen (insert p seen) ps)"

subsection \<open>For reading a file\<close>

text \<open>The local constant \<^verbatim>\<open>strict\<close> of \<^verbatim>\<open>parsePath\<close>, true by default.\<close>

definition strictMode :: "ParsePathOptions \<Rightarrow> bool" where
  "strictMode options = (case opt_strict options of None \<Rightarrow> True | Some b \<Rightarrow> b)"

subsection \<open>For the regex compiler\<close>

text \<open>\<^verbatim>\<open>s.includes(pat)\<close>.\<close>

fun stringIncludes :: "string \<Rightarrow> string \<Rightarrow> bool" where
  "stringIncludes [] pat = (pat = [])"
| "stringIncludes (c # cs) pat = (startsWith (c # cs) pat \<or> stringIncludes cs pat)"



text \<open>
  An escaped pattern is a sequence of tokens: a character that needs no escape, an escaped
  character, or a \<^verbatim>\<open>*\<close>.  The two replacements of \<^verbatim>\<open>prepareRegexPattern\<close> turn the first
  pair of adjacent stars into the any-characters token and then the first star into the
  segment token.
\<close>

datatype token = Lit char | Esc char | StarT | AnyT | SegT

fun render1 :: "token \<Rightarrow> string" where
  "render1 (Lit c) = [c]"
| "render1 (Esc c) = [BSL, c]"
| "render1 StarT = ''*''"
| "render1 AnyT = anyToken"
| "render1 SegT = segmentToken"

definition render :: "token list \<Rightarrow> string" where
  "render ts = concat (map render1 ts)"

definition tokenOf :: "char \<Rightarrow> token" where
  "tokenOf c = (if isRegexSpecial c then Esc c else if c = CHR ''*'' then StarT else Lit c)"

fun wellFormed :: "token \<Rightarrow> bool" where
  "wellFormed (Lit c) = (\<not> isRegexSpecial c \<and> c \<noteq> CHR ''*'')"
| "wellFormed (Esc c) = isRegexSpecial c"
| "wellFormed t = True"

fun anyFirst :: "token list \<Rightarrow> token list" where
  "anyFirst [] = []"
| "anyFirst [t] = [t]"
| "anyFirst (t # u # ts) =
     (if t = StarT \<and> u = StarT then AnyT # ts else t # anyFirst (u # ts))"

fun segFirst :: "token list \<Rightarrow> token list" where
  "segFirst [] = []"
| "segFirst (t # ts) = (if t = StarT then SegT # ts else t # segFirst ts)"

definition patternTokens :: "string \<Rightarrow> token list" where
  "patternTokens p = segFirst (anyFirst (map tokenOf p))"

text \<open>What the reader of patterns does with the text of one token, and with a sequence.\<close>

fun readToken :: "token \<Rightarrow> frame \<Rightarrow> syntax_error + frame" where
  "readToken (Lit c) f = Inr (addAtom (Chr c) f)"
| "readToken (Esc c) f = Inr (addAtom (Chr c) f)"
| "readToken StarT f = quantify Star f"
| "readToken AnyT f = Inr (addAtom (Group (Seq (Plus AnyChar) Empty)) f)"
| "readToken SegT f = Inr (addAtom (Group (Seq (Plus (CharClass True ''/'')) Empty)) f)"

fun readTokens :: "token list \<Rightarrow> frame \<Rightarrow> syntax_error + frame" where
  "readTokens [] f = Inr f"
| "readTokens (t # ts) f =
     (case readToken t f of Inl e \<Rightarrow> Inl e | Inr f' \<Rightarrow> readTokens ts f')"

text \<open>A frame is ready when a quantifier can follow; \<open>starsOk\<close> says, from whether the
  frame is ready, that every star of a token sequence finds it so.\<close>

fun ready :: "frame \<Rightarrow> bool" where
  "ready (Frame as ts q) = (q = Atom \<and> ts \<noteq> [])"

fun frameAlts :: "frame \<Rightarrow> regex list" where
  "frameAlts (Frame as ts q) = as"

fun starsOk :: "bool \<Rightarrow> token list \<Rightarrow> bool" where
  "starsOk b [] = True"
| "starsOk b (t # ts) = (if t = StarT then b \<and> starsOk False ts else starsOk True ts)"

text \<open>A pattern is read without error when no star of its prepared text stands first or
  follows a star.  \<open>patternGroup\<close> is the capture group of a pattern: the pattern read on
  its own, in a group.\<close>

definition patternOk :: "string \<Rightarrow> bool" where
  "patternOk x = starsOk False (patternTokens x)"

definition patternGroup :: "string \<Rightarrow> regex" where
  "patternGroup x = Group (projr (newRegExp (prepareRegexPattern x)))"

text \<open>The source text of an expression after its first pattern.\<close>

fun sourceTail :: "string list \<Rightarrow> string" where
  "sourceTail [] = '')''"
| "sourceTail (y # ys) = '')|('' @ prepareRegexPattern y @ sourceTail ys"

text \<open>The text that the loop of \<^verbatim>\<open>toRegex\<close> pushes for a pattern: without its
  \<^verbatim>\<open>!\<close> and without one leading \<^verbatim>\<open>/\<close>.\<close>

definition patternBody :: "string \<Rightarrow> string" where
  "patternBody pattern =
     (let pattern1 = (if startsWith pattern ''!'' then slice1 pattern else pattern)
      in if startsWith pattern1 ''/'' then slice1 pattern1 else pattern1)"

text \<open>What a pattern can put into its group: literal characters, the two wildcard groups, and
  such items under a star.\<close>

definition isAtomItem :: "regex \<Rightarrow> bool" where
  "isAtomItem r =
     (case r of
        Chr c \<Rightarrow> True
      | Group g \<Rightarrow> g = Seq (Plus AnyChar) Empty \<or> g = Seq (Plus (CharClass True ''/'')) Empty
      | _ \<Rightarrow> False)"

definition isItem :: "regex \<Rightarrow> bool" where
  "isItem r = (case r of Star a \<Rightarrow> isAtomItem a | _ \<Rightarrow> isAtomItem r)"

fun isItemSequence :: "regex \<Rightarrow> bool" where
  "isItemSequence Empty = True"
| "isItemSequence (Seq a b) = (isItem a \<and> isItemSequence b)"
| "isItemSequence r = False"

text \<open>The invariant of the reader inside the group of a pattern.\<close>

fun itemFrame :: "frame \<Rightarrow> bool" where
  "itemFrame (Frame as ts q) =
     (as = [] \<and> list_all isItem ts \<and> (q = Atom \<and> ts \<noteq> [] \<longrightarrow> isAtomItem (hd ts)))"

section \<open>The sentinel of an empty partition\<close>

lemma sentinel_source: "newRegExp ''$^'' = Inr sentinel"
  by code_simp

lemma searchFrom_sentinel_later: "\<not> searchFrom sentinel False s"
  by (induction s) (simp_all add: sentinel_def)

lemma test_sentinel: "test sentinel s \<longleftrightarrow> s = []"
  by (cases s) (simp_all add: test_def searchFrom_sentinel_later, simp_all add: sentinel_def)

lemma sortPatterns_no_accepts:
  "list_all (\<lambda>p. \<not> startsWith p ''!'') ps \<Longrightarrow> fst (sortPatterns acc ign ps) = acc"
  by (induction ps arbitrary: ign) (simp_all add: Let_def)

lemma toRegex_slash:
  "toRegex [''/''] = Inr \<lparr>accepts = sentinel, ignores = Seq BOL (Seq (Group Empty) Empty)\<rparr>"
  by code_simp

text \<open>
  Claim C1.  The claim: an empty partition compiles to an expression that matches no string,
  so that without a \<^verbatim>\<open>!\<close> pattern the accepts expression matches no candidate, not even
  the empty string.  The code: without a \<^verbatim>\<open>!\<close> pattern the accepts expression is
  \<^verbatim>\<open>/$^/\<close>, and \<^verbatim>\<open>/$^/\<close> matches exactly one string, the empty one (both anchors hold at
  index 0 of it).  With the patterns \<^verbatim>\<open>['/']\<close> the candidate \<^verbatim>\<open>'/'\<close>, stripped to the empty
  string, is matched by the ignores expression and by the accepts expression, and
  \<^verbatim>\<open>ignore\<close> answers false.
\<close>

theorem accepts_sentinel_matches_empty_only:
  assumes "list_all (\<lambda>p. \<not> startsWith p ''!'') ps" and "toRegex ps = Inr r"
  shows "accepts r = sentinel \<and> (test (accepts r) s \<longleftrightarrow> s = [])"
proof -
  from assms(1) have "fst (sortPatterns [] [] ps) = []"
    by (rule sortPatterns_no_accepts)
  with assms(2) have "accepts r = sentinel"
    by (auto simp: toRegex_def compilePatterns_def split: prod.splits sum.splits)
  then show ?thesis
    by (simp add: test_sentinel)
qed

theorem accepts_sentinel_matches_empty_only_witness:
  "list_all (\<lambda>p. \<not> startsWith p ''!'') [''/''] \<and>
   toRegex [''/''] = Inr \<lparr>accepts = sentinel, ignores = Seq BOL (Seq (Group Empty) Empty)\<rparr> \<and>
   test (accepts \<lparr>accepts = sentinel, ignores = Seq BOL (Seq (Group Empty) Empty)\<rparr>) '''' \<and>
   test (ignores \<lparr>accepts = sentinel, ignores = Seq BOL (Seq (Group Empty) Empty)\<rparr>) '''' \<and>
   \<not> ignore \<lparr>accepts = sentinel, ignores = Seq BOL (Seq (Group Empty) Empty)\<rparr> ''/''"
proof -
  have h: "list_all (\<lambda>p. \<not> startsWith p ''!'') [''/'']"
    by (simp add: startsWith_def)
  have acc: "test (accepts \<lparr>accepts = sentinel, ignores = Seq BOL (Seq (Group Empty) Empty)\<rparr>) ''''"
    using accepts_sentinel_matches_empty_only [OF h toRegex_slash, of "''''"] by simp
  have ign: "test (Seq BOL (Seq (Group Empty) Empty)) ''''"
    by (simp add: test_def)
  from acc have "\<not> ignore \<lparr>accepts = sentinel, ignores = Seq BOL (Seq (Group Empty) Empty)\<rparr> ''/''"
    by (simp add: ignore_def startsWith_def slice1_def)
  with h acc ign show ?thesis
    by (simp add: toRegex_slash)
qed

text \<open>
  Claim C9.  For every candidate path, the empty string included, \<^verbatim>\<open>ignore(toRegex([]), p)\<close>
  is false: both expressions are the sentinel, which matches the empty string, and what the
  ignores expression matches the accepts expression matches too.
\<close>

theorem toRegex_empty_ignores_nothing:
  "toRegex [] = Inr \<lparr>accepts = sentinel, ignores = sentinel\<rparr> \<and>
   (\<forall>p. \<not> ignore \<lparr>accepts = sentinel, ignores = sentinel\<rparr> p) \<and>
   test sentinel ''''"
  by (simp add: toRegex_def compilePatterns_def ignore_def test_sentinel)

section \<open>The matcher\<close>

lemma ignore_iff:
  "ignore r p \<longleftrightarrow>
     test (ignores r) (if startsWith p ''/'' then slice1 p else p) \<and>
     \<not> test (accepts r) (if startsWith p ''/'' then slice1 p else p)"
  by (simp add: ignore_def Let_def)

lemma toRegex_fixtures:
  "(case toRegex [''fixtures'', ''!fixtures/node_modules''] of
      Inl e \<Rightarrow> False
    | Inr r \<Rightarrow> ignore r ''fixtures'' \<and> ignore r ''fixtures/test.ts'' \<and>
              ignore r ''fixtures/other'' \<and> \<not> ignore r ''fixtures/node_modules'')"
  by code_simp

lemma toRegex_a_b:
  "toRegex [''a'', ''b''] =
     Inr \<lparr>accepts = sentinel,
          ignores = Alt (Seq BOL (Seq (Group (Seq (Chr CHR ''a'') Empty)) Empty))
                        (Seq (Group (Seq (Chr CHR ''b'') Empty)) Empty)\<rparr>"
  by code_simp

text \<open>
  Claim C2.  The claim: \<^verbatim>\<open>ignore\<close> is true iff the ignores expression matches the candidate
  and the accepts expression does not, both anchored at index 0, so that only a prefix of the
  candidate can match.  The code: the source text is \<^verbatim>\<open>^(p1)|(p2)|...\<close>, where \<^verbatim>\<open>^\<close>
  belongs to the first alternative only; every later pattern matches anywhere in the
  candidate (in general: lemma \<open>later_patterns_match_anywhere\<close> below).  With the patterns
  \<^verbatim>\<open>['a', 'b']\<close> the candidate \<^verbatim>\<open>'xb'\<close> is ignored, though neither pattern matches a
  prefix of it, while \<^verbatim>\<open>'xa'\<close> is not.
\<close>

theorem ignore_later_pattern_unanchored:
  "toRegex [''a'', ''b''] =
     Inr \<lparr>accepts = sentinel,
          ignores = Alt (Seq BOL (Seq (Group (Seq (Chr CHR ''a'') Empty)) Empty))
                        (Seq (Group (Seq (Chr CHR ''b'') Empty)) Empty)\<rparr> \<and>
   ignore \<lparr>accepts = sentinel,
          ignores = Alt (Seq BOL (Seq (Group (Seq (Chr CHR ''a'') Empty)) Empty))
                        (Seq (Group (Seq (Chr CHR ''b'') Empty)) Empty)\<rparr> ''xb'' \<and>
   \<not> ignore \<lparr>accepts = sentinel,
          ignores = Alt (Seq BOL (Seq (Group (Seq (Chr CHR ''a'') Empty)) Empty))
                        (Seq (Group (Seq (Chr CHR ''b'') Empty)) Empty)\<rparr> ''xa'' \<and>
   \<not> startsWith ''xb'' ''a'' \<and> \<not> startsWith ''xb'' ''b''"
  by code_simp

section \<open>Properties of the glob translator\<close>

lemma indexOf_ge: "- 1 \<le> indexOf s c"
  by (induction s) (auto simp: Let_def)

lemma indexOf_absent: "indexOf s c < 0 \<longleftrightarrow> c \<notin> set s"
proof (induction s)
  case Nil
  then show ?case by simp
next
  case (Cons a s)
  show ?case
    using Cons indexOf_ge [of s c] by (auto simp: Let_def)
qed

lemma indexOf_present:
  "c \<in> set s \<Longrightarrow> indexOf s c = int (length (takeWhile (\<lambda>x. x \<noteq> c) s))"
  by (induction s) (auto simp: Let_def indexOf_absent)

lemma indexOf_zero: "indexOf s c = 0 \<longleftrightarrow> startsWith s [c]"
proof (cases s)
  case Nil
  then show ?thesis by (simp add: startsWith_def)
next
  case (Cons a as)
  then show ?thesis
    using indexOf_ge [of as c] by (auto simp: Let_def startsWith_def)
qed

lemma takeWhile_all_but_last:
  "c \<in> set (xs @ [y]) \<Longrightarrow>
   length (takeWhile (\<lambda>x. x \<noteq> c) (xs @ [y])) = length xs \<longleftrightarrow> c \<notin> set xs"
  by (induction xs) auto

lemma matchEverywherePrefix_words:
  "matchEverywherePrefix t =
     (if CHR ''/'' \<notin> set t \<or> (last t = CHR ''/'' \<and> CHR ''/'' \<notin> set (butlast t))
      then ''**/'' else '''')"
proof (cases "CHR ''/'' \<in> set t")
  case False
  then show ?thesis by (simp add: matchEverywherePrefix_def indexOf_absent)
next
  case True
  then have "t \<noteq> []" by auto
  then obtain xs y where t: "t = xs @ [y]"
    by (metis append_butlast_last_id)
  have "indexOf t (CHR ''/'') = int (length (takeWhile (\<lambda>x. x \<noteq> CHR ''/'') t))"
    using True by (rule indexOf_present)
  moreover have "CHR ''/'' \<notin> set xs \<Longrightarrow> y = CHR ''/''"
    using True t by auto
  ultimately show ?thesis
    using True takeWhile_all_but_last [of "CHR ''/''" xs y] t
    by (auto simp: matchEverywherePrefix_def t)
qed

lemma patternWithoutLeadingSlash_words:
  "patternWithoutLeadingSlash t = (if startsWith t ''/'' then slice1 t else t)"
  by (simp add: patternWithoutLeadingSlash_def indexOf_zero)

lemma escapeFrom_lineTerminator:
  "isLineTerminator d \<Longrightarrow> escapeFrom b (d # cs) = d # escapeFrom False cs"
  by (auto simp: isLineTerminator_def isBrace_def)

lemma scanUnbraced_escapeFrom:
  "scanUnbraced s = (m, r) \<Longrightarrow>
   escapeFrom False s = m @ (case r of [] \<Rightarrow> [] | b # r' \<Rightarrow> BSL # b # escapeFrom False r') \<and>
   (case r of [] \<Rightarrow> True | b # r' \<Rightarrow> isBrace b)"
proof (induction s arbitrary: m r rule: scanUnbraced.induct)
  case 1
  then show ?case by simp
next
  case (2 c)
  then show ?case by (auto split: if_splits)
next
  case (3 c d cs)
  show ?case
  proof (cases "c = BSL \<and> \<not> isLineTerminator d")
    case True
    then obtain m' where m': "scanUnbraced cs = (m', r)" and m: "m = c # d # m'"
      using 3(3) by (auto split: prod.splits)
    from True have "\<not> isBrace c" by (simp add: isBrace_def)
    with True 3(1) [OF True m'] m show ?thesis by simp
  next
    case nesc: False
    show ?thesis
    proof (cases "isBrace c")
      case True
      with nesc 3(3) have "m = []" "r = c # d # cs" by auto
      moreover from True have "c \<noteq> BSL" by (auto simp: isBrace_def)
      ultimately show ?thesis using True by simp
    next
      case False
      with nesc obtain m' where m': "scanUnbraced (d # cs) = (m', r)" and m: "m = c # m'"
        using 3(3) by (auto split: prod.splits)
      have ih: "escapeFrom False (d # cs) =
                  m' @ (case r of [] \<Rightarrow> [] | b # r' \<Rightarrow> BSL # b # escapeFrom False r') \<and>
                (case r of [] \<Rightarrow> True | b # r' \<Rightarrow> isBrace b)"
        using 3(2) [OF nesc False m'] .
      have "escapeFrom (c = BSL) (d # cs) = escapeFrom False (d # cs)"
      proof (cases "c = BSL")
        case True
        with nesc have "isLineTerminator d" by simp
        then show ?thesis by (simp only: escapeFrom_lineTerminator)
      next
        case False
        then show ?thesis by simp
      qed
      with False ih m show ?thesis by simp
    qed
  qed
qed

lemma scanUnbraced_append: "scanUnbraced s = (m, r) \<Longrightarrow> s = m @ r"
  by (induction s arbitrary: m r rule: scanUnbraced.induct)
     (auto split: if_splits prod.splits)

lemma replaceAllBraces_escapeFrom: "replaceAllBraces s = escapeFrom False s"
proof (induction s rule: replaceAllBraces.induct)
  case (1 s)
  obtain m r where sc: "scanUnbraced s = (m, r)" by (cases "scanUnbraced s")
  note fact = scanUnbraced_escapeFrom [OF sc]
  show ?case
  proof (cases r)
    case Nil
    with sc have "execBrace s = None" by (simp add: execBrace_def)
    moreover from Nil have "m = s"
      using scanUnbraced_append [OF sc] by simp
    ultimately show ?thesis
      using fact Nil by (simp add: replaceAllBraces.simps [of s])
  next
    case (Cons b r')
    with fact have "isBrace b" by simp
    with sc Cons have ex: "execBrace s = Some (m, b, r')" by (simp add: execBrace_def)
    from 1 [OF ex] have "replaceAllBraces r' = escapeFrom False r'" by simp
    with ex fact Cons show ?thesis
      by (simp add: replaceAllBraces.simps [of s])
  qed
qed

lemma escapeFrom_positions:
  "escapeFrom (odd (backslashRun (p @ s) (length p))) s =
     concat (map (escapeAt (p @ s)) [length p..<length p + length s])"
proof (induction s arbitrary: p)
  case Nil
  then show ?case by simp
next
  case (Cons c cs)
  have "take (Suc (length p)) (p @ c # cs) = p @ [c]"
    by simp
  then have run: "backslashRun (p @ c # cs) (Suc (length p)) =
               (if c = BSL then Suc (backslashRun (p @ c # cs) (length p)) else 0)"
    by (simp add: backslashRun_def)
  have range: "[length p..<length p + length (c # cs)] =
                 length p # [Suc (length p)..<Suc (length p) + length cs]"
    by (subst upt_rec) simp
  have "escapeFrom (c = BSL \<and> \<not> odd (backslashRun (p @ c # cs) (length p))) cs =
          escapeFrom (odd (backslashRun (p @ c # cs) (Suc (length p)))) cs"
    by (simp add: run)
  also have "\<dots> = concat (map (escapeAt (p @ c # cs)) [Suc (length p)..<Suc (length p) + length cs])"
    using Cons.IH [of "p @ [c]"] by simp
  finally have tail: "escapeFrom (c = BSL \<and> \<not> odd (backslashRun (p @ c # cs) (length p))) cs =
      concat (map (escapeAt (p @ c # cs)) [Suc (length p)..<Suc (length p) + length cs])" .
  have head: "escapeAt (p @ c # cs) (length p) =
      (if isBrace c \<and> \<not> odd (backslashRun (p @ c # cs) (length p)) then [BSL, c] else [c])"
    by (simp add: escapeAt_def alreadyEscaped_def)
  show ?case
    by (simp only: range escapeFrom.simps list.map concat.simps head tail)
qed

lemma replaceAllBraces_words: "replaceAllBraces s = escapeEachBrace s"
  using escapeFrom_positions [of "[]" s]
  by (simp add: replaceAllBraces_escapeFrom escapeEachBrace_def backslashRun_def)

lemma suffix_not_special:
  "endsWith t ''/**'' \<Longrightarrow> t \<noteq> ''/**'' \<Longrightarrow> \<not> isSpecialCase t"
  by (auto simp: isSpecialCase_def endsWith_def)

text \<open>
  Claim C3.  For every pattern whose text to test (after the \<^verbatim>\<open>!\<close> is stripped and the
  end is trimmed) is none of the special cases: the result is the negation prefix, then
  \<^verbatim>\<open>**/\<close> exactly when the text has no \<^verbatim>\<open>/\<close> or its only \<^verbatim>\<open>/\<close> is its last
  character, then the escaped text without its leading slash, then the suffix.  The four
  examples of the claim follow.
\<close>

theorem anchoring_prefix:
  "(\<not> isSpecialCase (patternToTest p) \<longrightarrow>
      convertIgnorePatternToMinimatch p =
        negatedPrefix p
        @ (if CHR ''/'' \<notin> set (patternToTest p) \<or>
              (last (patternToTest p) = CHR ''/'' \<and> CHR ''/'' \<notin> set (butlast (patternToTest p)))
           then ''**/'' else '''')
        @ replaceAllBraces (if startsWith (patternToTest p) ''/'' then slice1 (patternToTest p)
                            else patternToTest p)
        @ matchInsideSuffix (patternToTest p)) \<and>
   negatedPrefix p = (if startsWith p ''!'' then ''!'' else '''') \<and>
   patternToTest p = trimEnd (if startsWith p ''!'' then slice1 p else p) \<and>
   convertIgnorePatternToMinimatch ''src'' = ''**/src'' \<and>
   convertIgnorePatternToMinimatch ''src/'' = ''**/src/'' \<and>
   convertIgnorePatternToMinimatch ''a/b'' = ''a/b'' \<and>
   convertIgnorePatternToMinimatch ''!src'' = ''!**/src''"
proof -
  have general: "\<not> isSpecialCase (patternToTest p) \<longrightarrow>
      convertIgnorePatternToMinimatch p =
        negatedPrefix p
        @ (if CHR ''/'' \<notin> set (patternToTest p) \<or>
              (last (patternToTest p) = CHR ''/'' \<and> CHR ''/'' \<notin> set (butlast (patternToTest p)))
           then ''**/'' else '''')
        @ replaceAllBraces (if startsWith (patternToTest p) ''/'' then slice1 (patternToTest p)
                            else patternToTest p)
        @ matchInsideSuffix (patternToTest p)"
    by (simp add: convertIgnorePatternToMinimatch_def Let_def
          matchEverywherePrefix_words patternWithoutLeadingSlash_words)
  have e1: "convertIgnorePatternToMinimatch ''src'' = ''**/src''" by code_simp
  have e2: "convertIgnorePatternToMinimatch ''src/'' = ''**/src/''" by code_simp
  have e3: "convertIgnorePatternToMinimatch ''a/b'' = ''a/b''" by code_simp
  have e4: "convertIgnorePatternToMinimatch ''!src'' = ''!**/src''" by code_simp
  have n: "negatedPrefix p = (if startsWith p ''!'' then ''!'' else '''')"
    by (simp add: negatedPrefix_def)
  have t: "patternToTest p = trimEnd (if startsWith p ''!'' then slice1 p else p)"
    by (simp add: patternToTest_def)
  from general e1 e2 e3 e4 n t show ?thesis
    by blast
qed

theorem anchoring_prefix_witness:
  "\<not> isSpecialCase (patternToTest ''!src/'') \<and>
   convertIgnorePatternToMinimatch ''!src/'' = ''!**/src/'' \<and>
   \<not> isSpecialCase (patternToTest ''/a/b'') \<and>
   convertIgnorePatternToMinimatch ''/a/b'' = ''a/b''"
proof -
  have h1: "\<not> isSpecialCase (patternToTest ''!src/'')" by code_simp
  have h2: "\<not> isSpecialCase (patternToTest ''/a/b'')" by code_simp
  have r1: "negatedPrefix ''!src/''
        @ (if CHR ''/'' \<notin> set (patternToTest ''!src/'') \<or>
              (last (patternToTest ''!src/'') = CHR ''/'' \<and> CHR ''/'' \<notin> set (butlast (patternToTest ''!src/'')))
           then ''**/'' else '''')
        @ replaceAllBraces (if startsWith (patternToTest ''!src/'') ''/'' then slice1 (patternToTest ''!src/'')
                            else patternToTest ''!src/'')
        @ matchInsideSuffix (patternToTest ''!src/'') = ''!**/src/''"
    by code_simp
  have r2: "negatedPrefix ''/a/b''
        @ (if CHR ''/'' \<notin> set (patternToTest ''/a/b'') \<or>
              (last (patternToTest ''/a/b'') = CHR ''/'' \<and> CHR ''/'' \<notin> set (butlast (patternToTest ''/a/b'')))
           then ''**/'' else '''')
        @ replaceAllBraces (if startsWith (patternToTest ''/a/b'') ''/'' then slice1 (patternToTest ''/a/b'')
                            else patternToTest ''/a/b'')
        @ matchInsideSuffix (patternToTest ''/a/b'') = ''a/b''"
    by code_simp
  from anchoring_prefix [of "''!src/''"] h1 r1
  have c1: "convertIgnorePatternToMinimatch ''!src/'' = ''!**/src/''" by (simp only: simp_thms)
  from anchoring_prefix [of "''/a/b''"] h2 r2
  have c2: "convertIgnorePatternToMinimatch ''/a/b'' = ''a/b''" by (simp only: simp_thms)
  from h1 h2 c1 c2 show ?thesis by blast
qed

text \<open>
  Claim C4.  The replacement loop escapes exactly the braces and parentheses that are not
  preceded by an odd run of backslashes, each decided at its own index, and leaves every other
  character as it is; this is the body of the result of \<^verbatim>\<open>convertIgnorePatternToMinimatch\<close>.
  The two examples of the claim follow.
\<close>

theorem brace_escaping:
  "replaceAllBraces s = escapeEachBrace s \<and>
   convertIgnorePatternToMinimatch p =
     (if isSpecialCase (patternToTest p) then negatedPrefix p @ patternToTest p
      else negatedPrefix p @ matchEverywherePrefix (patternToTest p)
           @ escapeEachBrace (patternWithoutLeadingSlash (patternToTest p))
           @ matchInsideSuffix (patternToTest p)) \<and>
   convertIgnorePatternToMinimatch ''src/{a,b}.js'' = ''src/'' @ [BSL] @ ''{a,b}.js'' \<and>
   convertIgnorePatternToMinimatch (''src/'' @ [BSL] @ ''{a}'') = ''src/'' @ [BSL] @ ''{a}''"
proof -
  have e1: "convertIgnorePatternToMinimatch ''src/{a,b}.js'' = ''src/'' @ [BSL] @ ''{a,b}.js''"
    by code_simp
  have e2: "convertIgnorePatternToMinimatch (''src/'' @ [BSL] @ ''{a}'') = ''src/'' @ [BSL] @ ''{a}''"
    by code_simp
  have g: "convertIgnorePatternToMinimatch p =
     (if isSpecialCase (patternToTest p) then negatedPrefix p @ patternToTest p
      else negatedPrefix p @ matchEverywherePrefix (patternToTest p)
           @ escapeEachBrace (patternWithoutLeadingSlash (patternToTest p))
           @ matchInsideSuffix (patternToTest p))"
    by (simp add: convertIgnorePatternToMinimatch_def Let_def replaceAllBraces_words)
  from e1 e2 g replaceAllBraces_words [of s] show ?thesis
    by blast
qed

text \<open>
  Claim C5, as stated, fails on the special case \<^verbatim>\<open>/**\<close>: it ends with \<^verbatim>\<open>/**\<close> and is
  returned unchanged.
\<close>

theorem recursion_suffix_special_case:
  "endsWith (patternToTest ''/**'') ''/**'' \<and>
   convertIgnorePatternToMinimatch ''/**'' = ''/**'' \<and>
   \<not> endsWith (convertIgnorePatternToMinimatch ''/**'') ''/*''"
  by code_simp

text \<open>
  Claim C5, amended.  If the text to test ends with \<^verbatim>\<open>/**\<close> and is not the special case
  \<^verbatim>\<open>/**\<close> itself, the result is the negation prefix, the anchoring prefix and the escaped
  body, with \<^verbatim>\<open>/*\<close> appended; so \<^verbatim>\<open>src/**\<close> becomes \<^verbatim>\<open>src/**/*\<close>.
\<close>

theorem recursion_suffix:
  "(endsWith (patternToTest p) ''/**'' \<and> patternToTest p \<noteq> ''/**'' \<longrightarrow>
      convertIgnorePatternToMinimatch p =
        (negatedPrefix p @ matchEverywherePrefix (patternToTest p)
           @ replaceAllBraces (patternWithoutLeadingSlash (patternToTest p))) @ ''/*'') \<and>
   convertIgnorePatternToMinimatch ''src/**'' = ''src/**/*''"
proof -
  have e: "convertIgnorePatternToMinimatch ''src/**'' = ''src/**/*''" by code_simp
  have "endsWith (patternToTest p) ''/**'' \<and> patternToTest p \<noteq> ''/**'' \<longrightarrow>
      convertIgnorePatternToMinimatch p =
        (negatedPrefix p @ matchEverywherePrefix (patternToTest p)
           @ replaceAllBraces (patternWithoutLeadingSlash (patternToTest p))) @ ''/*''"
    using suffix_not_special [of "patternToTest p"]
    by (auto simp: convertIgnorePatternToMinimatch_def Let_def matchInsideSuffix_def)
  with e show ?thesis by blast
qed

theorem recursion_suffix_witness:
  "endsWith (patternToTest ''!a/**  '') ''/**'' \<and> patternToTest ''!a/**  '' \<noteq> ''/**'' \<and>
   convertIgnorePatternToMinimatch ''!a/**  '' = ''!a/**/*''"
proof -
  have h: "endsWith (patternToTest ''!a/**  '') ''/**'' \<and> patternToTest ''!a/**  '' \<noteq> ''/**''"
    by code_simp
  have r: "(negatedPrefix ''!a/**  '' @ matchEverywherePrefix (patternToTest ''!a/**  '')
           @ replaceAllBraces (patternWithoutLeadingSlash (patternToTest ''!a/**  ''))) @ ''/*''
          = ''!a/**/*''"
    by code_simp
  from recursion_suffix [of "''!a/**  ''"] h r
  have "convertIgnorePatternToMinimatch ''!a/**  '' = ''!a/**/*''" by (simp only: simp_thms)
  with h show ?thesis by blast
qed

text \<open>Every special case is returned as it is, behind its negation prefix.\<close>

lemma special_case_unchanged:
  "isSpecialCase (patternToTest p) \<Longrightarrow>
   convertIgnorePatternToMinimatch p = negatedPrefix p @ patternToTest p"
  by (simp add: convertIgnorePatternToMinimatch_def)

lemma negated_special_case: "convertIgnorePatternToMinimatch ''!/**'' = ''!/**''"
  by code_simp

section \<open>Properties of the tokenizer\<close>

lemma collectPatterns_filter:
  "collectPatterns acc ls = acc @ filter keepsLine (map trim ls)"
  by (induction ls arbitrary: acc) (simp_all add: Let_def keepsLine_def)

lemma foldl_setAdd_unseen: "foldl setAdd acc ps = acc @ unseen (set acc) ps"
  by (induction ps arbitrary: acc) (simp_all add: setAdd_def insert_absorb)

lemma unseen_positions:
  "unseen seen ps =
     map (\<lambda>i. ps ! i) (filter (\<lambda>i. ps ! i \<notin> seen \<union> set (take i ps)) [0..<length ps])"
proof (induction ps arbitrary: seen)
  case Nil
  then show ?case by simp
next
  case (Cons p ps)
  have range: "[0..<length (p # ps)] = 0 # map Suc [0..<length ps]"
    by (simp add: upt_conv_Cons map_Suc_upt del: upt_Suc)
  show ?case
  proof (cases "p \<in> seen")
    case True
    then have "(\<lambda>i. ps ! i \<notin> seen \<and> ps ! i \<noteq> p \<and> ps ! i \<notin> set (take i ps)) =
               (\<lambda>i. ps ! i \<notin> seen \<and> ps ! i \<notin> set (take i ps))"
      by auto
    with True Cons.IH [of seen] show ?thesis
      by (simp only: range) (simp add: filter_map comp_def)
  next
    case False
    with Cons.IH [of "insert p seen"] show ?thesis
      by (simp only: range) (simp add: filter_map comp_def conj_left_commute)
  qed
qed

lemma dedupe_first_occurrences: "dedupe ps = firstOccurrences ps"
  by (simp add: dedupe_def foldl_setAdd_unseen firstOccurrences_def unseen_positions)

lemma unseen_set: "set (unseen seen ps) = set ps - seen"
  by (induction ps arbitrary: seen) auto

lemma unseen_distinct: "distinct (unseen seen ps)"
  by (induction ps arbitrary: seen) (auto simp: unseen_set)

lemma trimEnd_take: "\<exists>k. trimEnd w = take k w"
proof -
  obtain n where "dropWhile isWhiteSpace (rev w) = drop n (rev w)"
    by (metis dropWhile_eq_drop)
  then have "trimEnd w = take (length w - n) w"
    by (simp add: trimEnd_def rev_drop)
  then show ?thesis ..
qed

lemma trimStart_head: "trimStart s = c # cs \<Longrightarrow> \<not> isWhiteSpace c"
  unfolding trimStart_def by (metis hd_dropWhile list.distinct(1) list.sel(1))

lemma trimEnd_last: "trimEnd s = cs @ [c] \<Longrightarrow> \<not> isWhiteSpace c"
proof -
  assume "trimEnd s = cs @ [c]"
  then have "dropWhile isWhiteSpace (rev s) = c # rev cs"
    by (metis rev.simps(2) rev_rev_ident rev_swap trimEnd_def rev_append rev_singleton_conv append_Cons append_Nil)
  then show ?thesis
    by (metis hd_dropWhile list.distinct(1) list.sel(1))
qed

lemma trimStart_fixed: "(s \<noteq> [] \<Longrightarrow> \<not> isWhiteSpace (hd s)) \<Longrightarrow> trimStart s = s"
  by (cases s) (simp_all add: trimStart_def)

lemma trimEnd_fixed: "(s \<noteq> [] \<Longrightarrow> \<not> isWhiteSpace (last s)) \<Longrightarrow> trimEnd s = s"
  by (cases s rule: rev_cases) (simp_all add: trimEnd_def)

lemma trim_idem: "trim (trim s) = trim s"
proof (cases "trim s = []")
  case True
  have "trim [] = []" by (simp add: trim_def trimStart_def trimEnd_def)
  with True show ?thesis by simp
next
  case False
  obtain k where k: "trim s = take k (trimStart s)"
    using trimEnd_take [of "trimStart s"] by (auto simp: trim_def)
  from False k obtain c cs where w: "trimStart s = c # cs"
    by (cases "trimStart s") auto
  with k False have "hd (trim s) = c"
    by (cases k) auto
  with w have h: "\<not> isWhiteSpace (hd (trim s))"
    using trimStart_head by blast
  from False obtain ys y where "trim s = ys @ [y]"
    by (metis rev_exhaust)
  then have l: "\<not> isWhiteSpace (last (trim s))"
    using trimEnd_last [of "trimStart s" ys y] by (simp add: trim_def)
  from h have "trimStart (trim s) = trim s"
    by (simp add: trimStart_fixed)
  moreover from l have "trimEnd (trim s) = trim s"
    by (simp add: trimEnd_fixed)
  ultimately show ?thesis
    by (simp add: trim_def [of "trim s"])
qed

lemma parse_undeduped:
  "parse x \<lparr>opt_dedupe = Some False\<rparr> = filter keepsLine (map trim (splitLines x))"
  by (simp add: parse_def collectPatterns_filter)

lemma parse_deduped:
  "(case opt_dedupe opts of None \<Rightarrow> True | Some b \<Rightarrow> b) \<Longrightarrow>
   parse x opts = dedupe (filter keepsLine (map trim (splitLines x)))"
  by (simp add: parse_def collectPatterns_filter)

lemma set_dedupe: "set (dedupe ps) = set ps"
  by (simp add: dedupe_def foldl_setAdd_unseen unseen_set)

lemma set_parse: "set (parse x opts) = set (filter keepsLine (map trim (splitLines x)))"
  by (simp add: parse_def collectPatterns_filter set_dedupe Let_def)

lemma keepsLine_not_blank: "keepsLine v \<Longrightarrow> trim v = v \<Longrightarrow> \<not> list_all isWhiteSpace v"
proof
  assume k: "keepsLine v" and t: "trim v = v" and ws: "list_all isWhiteSpace v"
  from ws have "trimStart v = []"
    by (simp add: trimStart_def list_all_iff)
  then have "trim v = []"
    by (simp add: trim_def trimEnd_def)
  with k t show False by (simp add: keepsLine_def)
qed

text \<open>
  Claim C7.  Every pattern that \<^verbatim>\<open>parse\<close> returns is non-empty, does not start with
  \<^verbatim>\<open>#\<close>, is not blank, is trimmed, and is the trimmed form of a line of the content;
  without deduplication the result is exactly the kept lines in order; deduplicating that
  result gives the result with deduplication, which is also the default; and \<^verbatim>\<open>dedupe\<close>
  keeps the first occurrence of each value, in order.
\<close>

theorem parse_lines:
  "(\<forall>v \<in> set (parse x opts).
      v \<noteq> [] \<and> \<not> startsWith v ''#'' \<and> \<not> list_all isWhiteSpace v \<and> trim v = v \<and>
      (\<exists>l \<in> set (splitLines x). v = trim l)) \<and>
   parse x \<lparr>opt_dedupe = Some False\<rparr> =
     filter (\<lambda>v. v \<noteq> [] \<and> \<not> startsWith v ''#'') (map trim (splitLines x)) \<and>
   dedupe (parse x \<lparr>opt_dedupe = Some False\<rparr>) = parse x \<lparr>opt_dedupe = Some True\<rparr> \<and>
   parse x \<lparr>opt_dedupe = None\<rparr> = parse x \<lparr>opt_dedupe = Some True\<rparr> \<and>
   dedupe ps = firstOccurrences ps \<and> distinct (dedupe ps) \<and> set (dedupe ps) = set ps"
proof -
  have members: "\<forall>v \<in> set (parse x opts).
      v \<noteq> [] \<and> \<not> startsWith v ''#'' \<and> \<not> list_all isWhiteSpace v \<and> trim v = v \<and>
      (\<exists>l \<in> set (splitLines x). v = trim l)"
  proof
    fix v assume "v \<in> set (parse x opts)"
    then have k: "keepsLine v" and "v \<in> trim ` set (splitLines x)"
      by (auto simp: set_parse)
    then obtain l where l: "l \<in> set (splitLines x)" "v = trim l" by auto
    then have t: "trim v = v" by (simp add: trim_idem)
    from k t have "\<not> list_all isWhiteSpace v" by (rule keepsLine_not_blank)
    with k t l show "v \<noteq> [] \<and> \<not> startsWith v ''#'' \<and> \<not> list_all isWhiteSpace v \<and> trim v = v \<and>
      (\<exists>l \<in> set (splitLines x). v = trim l)"
      by (auto simp: keepsLine_def)
  qed
  have plain: "parse x \<lparr>opt_dedupe = Some False\<rparr> =
     filter (\<lambda>v. v \<noteq> [] \<and> \<not> startsWith v ''#'') (map trim (splitLines x))"
    using parse_undeduped [of x] by (simp add: keepsLine_def [abs_def])
  have d1: "dedupe (parse x \<lparr>opt_dedupe = Some False\<rparr>) = parse x \<lparr>opt_dedupe = Some True\<rparr>"
    by (simp add: parse_undeduped parse_deduped)
  have d2: "parse x \<lparr>opt_dedupe = None\<rparr> = parse x \<lparr>opt_dedupe = Some True\<rparr>"
    by (simp add: parse_deduped)
  have d3: "distinct (dedupe ps)"
    by (simp add: dedupe_def foldl_setAdd_unseen unseen_distinct)
  from members plain d1 d2 d3 dedupe_first_occurrences [of ps] set_dedupe [of ps]
  show ?thesis by blast
qed

theorem parse_lines_witness:
  "parse (''  dist '' @ [CR, LF] @ ''# build'' @ [LF, LF] @ ''dist'' @ [LF] @ ''*.log'')
         \<lparr>opt_dedupe = None\<rparr> = [''dist'', ''*.log''] \<and>
   ''dist'' \<in> set (parse (''  dist '' @ [CR, LF] @ ''# build'' @ [LF, LF] @ ''dist'' @ [LF] @ ''*.log'')
         \<lparr>opt_dedupe = None\<rparr>) \<and>
   ''dist'' \<noteq> [] \<and> \<not> startsWith ''dist'' ''#'' \<and> trim ''dist'' = ''dist'' \<and>
   dedupe (parse (''  dist '' @ [CR, LF] @ ''# build'' @ [LF, LF] @ ''dist'' @ [LF] @ ''*.log'')
         \<lparr>opt_dedupe = Some False\<rparr>) = [''dist'', ''*.log'']"
proof -
  let ?x = "''  dist '' @ [CR, LF] @ ''# build'' @ [LF, LF] @ ''dist'' @ [LF] @ ''*.log''"
  have v: "parse ?x \<lparr>opt_dedupe = None\<rparr> = [''dist'', ''*.log'']"
    by code_simp
  have v2: "parse ?x \<lparr>opt_dedupe = Some True\<rparr> = [''dist'', ''*.log'']"
    by code_simp
  from v have m: "''dist'' \<in> set (parse ?x \<lparr>opt_dedupe = None\<rparr>)"
    by simp
  note inst = parse_lines [of ?x "\<lparr>opt_dedupe = None\<rparr>" "[]"]
  from inst m have "''dist'' \<noteq> [] \<and> \<not> startsWith ''dist'' ''#'' \<and> trim ''dist'' = ''dist''"
    by blast
  moreover from inst
  have eq: "dedupe (parse ?x \<lparr>opt_dedupe = Some False\<rparr>) = parse ?x \<lparr>opt_dedupe = Some True\<rparr>"
    by blast
  have "dedupe (parse ?x \<lparr>opt_dedupe = Some False\<rparr>) = [''dist'', ''*.log'']"
    by (rule trans [OF eq v2])
  ultimately show ?thesis using v m by blast
qed

section \<open>Properties of reading a file\<close>

text \<open>
  Claim C8, as stated, fails: \<^verbatim>\<open>parsePath\<close> also fails on a path that exists, when the
  path is a directory and \<^verbatim>\<open>readFileSync\<close> throws.
\<close>

theorem parsePath_directory:
  "existsSync [''fixtures'' \<mapsto> Directory] ''fixtures'' \<and>
   parsePath [''fixtures'' \<mapsto> Directory] ''fixtures'' \<lparr>opt_dedupe = None, opt_strict = None\<rparr>
     = Inl EISDIR"
  by (simp add: parsePath_def existsSync_def readFileSync_def)

text \<open>
  Claim C8, amended.  \<^verbatim>\<open>parsePath\<close> fails with its own error, whose message holds the
  file path and the words \<^verbatim>\<open>invalid file\<close>, if and only if the path does not exist and
  \<^verbatim>\<open>strict\<close> is true (the default); every other failure is the failure of reading a path
  that exists; when the path does not exist and \<^verbatim>\<open>strict\<close> is false the result is the
  empty list; when the path is a file the result is \<^verbatim>\<open>parse\<close> of its text.
\<close>

theorem parsePath_missing_file:
  "(parsePath fs filepath options = Inl (Error (invalidFileMessage filepath)) \<longleftrightarrow>
      \<not> existsSync fs filepath \<and> strictMode options) \<and>
   (\<forall>e. parsePath fs filepath options = Inl e \<longrightarrow>
      (\<not> existsSync fs filepath \<and> strictMode options \<and> e = Error (invalidFileMessage filepath)) \<or>
      (existsSync fs filepath \<and> readFileSync fs filepath = Inl e)) \<and>
   (\<not> existsSync fs filepath \<and> \<not> strictMode options \<longrightarrow>
      parsePath fs filepath options = Inr []) \<and>
   (\<forall>text. fs filepath = Some (File text) \<longrightarrow>
      parsePath fs filepath options = Inr (parse text options)) \<and>
   strictMode \<lparr>opt_dedupe = d, opt_strict = None\<rparr> \<and>
   (\<exists>u v. invalidFileMessage filepath = u @ filepath @ v) \<and>
   (\<exists>u v. invalidFileMessage filepath = u @ ''invalid file'' @ v)"
proof -
  have a: "parsePath fs filepath options = Inl (Error (invalidFileMessage filepath)) \<longleftrightarrow>
      \<not> existsSync fs filepath \<and> strictMode options"
    by (auto simp: parsePath_def strictMode_def readFileSync_def existsSync_def
             split: option.splits fs_node.splits)
  have b: "\<forall>e. parsePath fs filepath options = Inl e \<longrightarrow>
      (\<not> existsSync fs filepath \<and> strictMode options \<and> e = Error (invalidFileMessage filepath)) \<or>
      (existsSync fs filepath \<and> readFileSync fs filepath = Inl e)"
    by (auto simp: parsePath_def strictMode_def readFileSync_def existsSync_def
             split: option.splits fs_node.splits if_splits)
  have c: "\<not> existsSync fs filepath \<and> \<not> strictMode options \<longrightarrow>
      parsePath fs filepath options = Inr []"
    by (auto simp: parsePath_def strictMode_def split: option.splits)
  have d: "\<forall>text. fs filepath = Some (File text) \<longrightarrow>
      parsePath fs filepath options = Inr (parse text options)"
    by (auto simp: parsePath_def readFileSync_def existsSync_def)
  have e: "strictMode \<lparr>opt_dedupe = d, opt_strict = None\<rparr>"
    by (simp add: strictMode_def)
  have f: "invalidFileMessage filepath = [CHR 0x22] @ filepath @ ([CHR 0x22] @ '': invalid file path.'')"
    by (simp add: invalidFileMessage_def)
  have g: "invalidFileMessage filepath =
             ([CHR 0x22] @ filepath @ [CHR 0x22] @ '': '') @ ''invalid file'' @ '' path.''"
    by (simp add: invalidFileMessage_def)
  from f have f': "\<exists>u v. invalidFileMessage filepath = u @ filepath @ v" by blast
  from g have g': "\<exists>u v. invalidFileMessage filepath = u @ ''invalid file'' @ v" by blast
  from a b c d e f' g' show ?thesis by blast
qed

theorem parsePath_missing_file_witness:
  "\<not> existsSync Map.empty ''invalid-filepath'' \<and>
   strictMode \<lparr>opt_dedupe = None, opt_strict = None\<rparr> \<and>
   parsePath Map.empty ''invalid-filepath'' \<lparr>opt_dedupe = None, opt_strict = None\<rparr>
     = Inl (Error (invalidFileMessage ''invalid-filepath'')) \<and>
   \<not> strictMode \<lparr>opt_dedupe = None, opt_strict = Some False\<rparr> \<and>
   parsePath Map.empty ''invalid-path'' \<lparr>opt_dedupe = None, opt_strict = Some False\<rparr> = Inr [] \<and>
   parsePath [''.gitignore'' \<mapsto> File ''dist''] ''.gitignore''
     \<lparr>opt_dedupe = None, opt_strict = None\<rparr> = Inr [''dist'']"
proof -
  have h1: "\<not> existsSync Map.empty ''invalid-filepath''" by (simp add: existsSync_def)
  have h2: "strictMode \<lparr>opt_dedupe = None, opt_strict = None\<rparr>" by (simp add: strictMode_def)
  have h3: "\<not> existsSync Map.empty ''invalid-path''" by (simp add: existsSync_def)
  have h4: "\<not> strictMode \<lparr>opt_dedupe = None, opt_strict = Some False\<rparr>" by (simp add: strictMode_def)
  have h5: "[''.gitignore'' \<mapsto> File ''dist''] ''.gitignore'' = Some (File ''dist'')" by simp
  have h6: "parse ''dist'' \<lparr>opt_dedupe = None, opt_strict = None\<rparr> = [''dist'']" by code_simp
  from parsePath_missing_file [of Map.empty "''invalid-filepath''" "\<lparr>opt_dedupe = None, opt_strict = None\<rparr>"] h1 h2
  have c1: "parsePath Map.empty ''invalid-filepath'' \<lparr>opt_dedupe = None, opt_strict = None\<rparr>
     = Inl (Error (invalidFileMessage ''invalid-filepath''))" by blast
  from parsePath_missing_file [of Map.empty "''invalid-path''" "\<lparr>opt_dedupe = None, opt_strict = Some False\<rparr>"] h3 h4
  have c2: "parsePath Map.empty ''invalid-path'' \<lparr>opt_dedupe = None, opt_strict = Some False\<rparr> = Inr []"
    by blast
  from parsePath_missing_file [of "[''.gitignore'' \<mapsto> File ''dist'']" "''.gitignore''" "\<lparr>opt_dedupe = None, opt_strict = None\<rparr>"] h5
  have "parsePath [''.gitignore'' \<mapsto> File ''dist''] ''.gitignore''
     \<lparr>opt_dedupe = None, opt_strict = None\<rparr> = Inr (parse ''dist'' \<lparr>opt_dedupe = None, opt_strict = None\<rparr>)"
    by blast
  then have c3: "parsePath [''.gitignore'' \<mapsto> File ''dist''] ''.gitignore''
     \<lparr>opt_dedupe = None, opt_strict = None\<rparr> = Inr [''dist'']"
    by (simp only: h6)
  from h1 h2 h4 c1 c2 c3 show ?thesis by blast
qed

section \<open>Properties of the regex compiler\<close>



lemma render_simps [simp]:
  "render [] = []" "render (t # ts) = render1 t @ render ts"
  by (simp_all add: render_def)

lemma escapeRegex_tokens: "escapeRegex p = render (map tokenOf p)"
  by (induction p) (simp_all add: escapeRegex_def tokenOf_def render_def)

lemma wellFormed_tokenOf: "wellFormed (tokenOf c)"
  by (simp add: tokenOf_def)

lemma star_not_special: "\<not> isRegexSpecial (CHR ''*'')"
  by (simp add: isRegexSpecial_def)

lemma render1_no_star:
  "wellFormed t \<Longrightarrow> t \<noteq> StarT \<Longrightarrow> CHR ''*'' \<notin> set (render1 t) \<and> render1 t \<noteq> []"
  using star_not_special
  by (cases t) (auto simp: anyToken_def segmentToken_def)

lemma replaceFirst_skip:
  "pat \<noteq> [] \<Longrightarrow> hd pat \<notin> set w \<Longrightarrow>
   replaceFirst pat rep (w @ rest) = w @ replaceFirst pat rep rest"
proof (induction w)
  case Nil
  then show ?case by simp
next
  case (Cons c w)
  then have "\<not> startsWith (c # w @ rest) pat"
    by (cases pat) (auto simp: startsWith_def)
  with Cons show ?case by simp
qed

lemma render_starts_star:
  "list_all wellFormed ts \<Longrightarrow>
   startsWith (render ts) ''*'' \<longleftrightarrow> (ts \<noteq> [] \<and> hd ts = StarT)"
proof (cases ts)
  case Nil
  then show ?thesis by (simp add: startsWith_def)
next
  case (Cons t r)
  assume "list_all wellFormed ts"
  with Cons have wf: "wellFormed t" by simp
  show ?thesis
  proof (cases "t = StarT")
    case True
    with Cons show ?thesis by (simp add: startsWith_def)
  next
    case False
    with wf have "CHR ''*'' \<notin> set (render1 t) \<and> render1 t \<noteq> []"
      by (rule render1_no_star)
    then obtain c w where "render1 t = c # w" "c \<noteq> CHR ''*''"
      by (cases "render1 t") auto
    with Cons False show ?thesis by (simp add: startsWith_def)
  qed
qed

lemma startsWith_two_stars:
  "startsWith (c # s) ''**'' \<longleftrightarrow> c = CHR ''*'' \<and> startsWith s ''*''"
  by (cases s) (auto simp: startsWith_def)

lemma anyFirst_render:
  "list_all wellFormed ts \<Longrightarrow>
   replaceFirst ''**'' anyToken (render ts) = render (anyFirst ts)"
proof (induction ts rule: anyFirst.induct)
  case 1
  then show ?case by simp
next
  case (2 t)
  show ?case
  proof (cases "t = StarT")
    case True
    then show ?thesis by (simp add: startsWith_def)
  next
    case False
    with 2 have "CHR ''*'' \<notin> set (render1 t)"
      using render1_no_star [of t] by simp
    then show ?thesis
      using replaceFirst_skip [of "''**''" "render1 t" anyToken "[]"] by simp
  qed
next
  case (3 t u ts)
  then have wf: "list_all wellFormed (u # ts)" and wft: "wellFormed t" by simp_all
  show ?case
  proof (cases "t = StarT")
    case True
    note t = this
    show ?thesis
    proof (cases "u = StarT")
      case True
      with t show ?thesis by (simp add: startsWith_def)
    next
      case False
      have "\<not> startsWith (render (u # ts)) ''*''"
        using render_starts_star [OF wf] False by simp
      then have "\<not> startsWith (CHR ''*'' # render (u # ts)) ''**''"
        by (simp only: startsWith_two_stars simp_thms)
      with t False 3(1) wf show ?thesis
        by simp
    qed
  next
    case False
    with wft have "CHR ''*'' \<notin> set (render1 t)"
      using render1_no_star [of t] by simp
    then have "replaceFirst ''**'' anyToken (render1 t @ render (u # ts)) =
               render1 t @ replaceFirst ''**'' anyToken (render (u # ts))"
      using replaceFirst_skip [of "''**''" "render1 t" anyToken "render (u # ts)"] by simp
    with False 3(1) wf show ?thesis by simp
  qed
qed

lemma segFirst_render:
  "list_all wellFormed ts \<Longrightarrow>
   replaceFirst ''*'' segmentToken (render ts) = render (segFirst ts)"
proof (induction ts)
  case Nil
  then show ?case by simp
next
  case (Cons t ts)
  show ?case
  proof (cases "t = StarT")
    case True
    then show ?thesis by (simp add: startsWith_def)
  next
    case False
    with Cons.prems have "CHR ''*'' \<notin> set (render1 t)"
      using render1_no_star [of t] by simp
    then have "replaceFirst ''*'' segmentToken (render1 t @ render ts) =
               render1 t @ replaceFirst ''*'' segmentToken (render ts)"
      using replaceFirst_skip [of "''*''" "render1 t" segmentToken "render ts"] by simp
    with False Cons show ?thesis by simp
  qed
qed

lemma wellFormed_anyFirst: "list_all wellFormed ts \<Longrightarrow> list_all wellFormed (anyFirst ts)"
  by (induction ts rule: anyFirst.induct) simp_all

lemma wellFormed_segFirst: "list_all wellFormed ts \<Longrightarrow> list_all wellFormed (segFirst ts)"
  by (induction ts) simp_all

lemma wellFormed_tokens: "list_all wellFormed (map tokenOf p)"
  by (induction p) (simp_all add: wellFormed_tokenOf)

lemma wellFormed_patternTokens: "list_all wellFormed (patternTokens p)"
  unfolding patternTokens_def
  by (intro wellFormed_segFirst wellFormed_anyFirst wellFormed_tokens)

lemma prepareRegexPattern_tokens: "prepareRegexPattern p = render (patternTokens p)"
proof -
  have wf: "list_all wellFormed (map tokenOf p)"
    by (rule wellFormed_tokens)
  then show ?thesis
    by (simp add: prepareRegexPattern_def escapeRegex_tokens anyFirst_render
          segFirst_render wellFormed_anyFirst patternTokens_def)
qed

lemma special_not_alnum: "isRegexSpecial c \<Longrightarrow> \<not> isAlnum c"
  by (auto simp: isRegexSpecial_def isAlnum_def)

lemma readPattern_token:
  assumes "wellFormed t" and "m = Normal \<or> m = AfterOpen"
  shows "readPattern (PState m f stack) (render1 t @ rest) =
           (case readToken t f of
              Inl e \<Rightarrow> Inl e
            | Inr f' \<Rightarrow> readPattern (PState Normal f' stack) rest)"
proof (cases t)
  case (Lit c)
  with assms(1) have "\<not> isRegexSpecial c" "c \<noteq> CHR ''*''" by simp_all
  then have "stepNormal c f stack = Inr (PState Normal (addAtom (Chr c) f) stack)" "c \<noteq> CHR ''?''"
    by (auto simp: stepNormal_def isRegexSpecial_def)
  with Lit assms(2) show ?thesis by auto
next
  case (Esc c)
  with assms(1) have "\<not> isAlnum c" by (simp add: special_not_alnum)
  with Esc assms(2) show ?thesis by (auto simp: stepNormal_def)
next
  case StarT
  with assms(2) show ?thesis
    by (cases "quantify Star f") (auto simp: stepNormal_def inFrame_def)
next
  case AnyT
  with assms(2) show ?thesis
    by (cases f) (auto simp: stepNormal_def inFrame_def anyToken_def)
next
  case SegT
  with assms(2) show ?thesis
    by (cases f) (auto simp: stepNormal_def stepClass_def inFrame_def segmentToken_def isAlnum_def)
qed

lemma readPattern_tokens:
  assumes "list_all wellFormed ts" and "m = Normal \<or> m = AfterOpen"
  shows "readPattern (PState m f stack) (render ts @ rest) =
           (case readTokens ts f of
              Inl e \<Rightarrow> Inl e
            | Inr f' \<Rightarrow> readPattern (PState (if ts = [] then m else Normal) f' stack) rest)"
  using assms
proof (induction ts arbitrary: m f)
  case Nil
  then show ?case by simp
next
  case (Cons t ts)
  then have wf: "wellFormed t" "list_all wellFormed ts" by simp_all
  show ?case
  proof (cases "readToken t f")
    case (Inl e)
    with readPattern_token [OF wf(1) Cons.prems(2), of f stack "render ts @ rest"]
    show ?thesis by simp
  next
    case (Inr f')
    with readPattern_token [OF wf(1) Cons.prems(2), of f stack "render ts @ rest"]
      Cons.IH [OF wf(2), of Normal f']
    show ?thesis by (cases ts) (simp_all split: sum.splits)
  qed
qed

lemma readToken_star:
  "readToken StarT f = Inl e \<Longrightarrow> e = NothingToRepeat \<and> \<not> ready f"
  by (cases "(Star, f)" rule: quantify.cases) auto

lemma readToken_star_ok:
  "readToken StarT f = Inr f' \<Longrightarrow> ready f \<and> \<not> ready f' \<and> frameAlts f' = frameAlts f"
  by (cases "(Star, f)" rule: quantify.cases) auto

lemma readToken_other:
  "t \<noteq> StarT \<Longrightarrow> \<exists>f'. readToken t f = Inr f' \<and> ready f' \<and> frameAlts f' = frameAlts f"
  by (cases t; cases f) auto

lemma readTokens_outcome:
  "(\<forall>e. readTokens ts f = Inl e \<longrightarrow> e = NothingToRepeat) \<and>
   ((\<exists>f'. readTokens ts f = Inr f') \<longleftrightarrow> starsOk (ready f) ts) \<and>
   (\<forall>f'. readTokens ts f = Inr f' \<longrightarrow> frameAlts f' = frameAlts f)"
proof (induction ts arbitrary: f)
  case Nil
  then show ?case by simp
next
  case (Cons t ts)
  show ?case
  proof (cases "t = StarT")
    case True
    show ?thesis
    proof (cases "readToken StarT f")
      case (Inl e)
      with True readToken_star [OF Inl] show ?thesis by simp
    next
      case (Inr f')
      with True readToken_star_ok [OF Inr] Cons.IH [of f'] show ?thesis by simp
    qed
  next
    case False
    then obtain f' where "readToken t f = Inr f'" "ready f'" "frameAlts f' = frameAlts f"
      using readToken_other by blast
    with False Cons.IH [of f'] show ?thesis by simp
  qed
qed

lemma join_sourceTail:
  "join '')|('' (map prepareRegexPattern (x # xs)) @ '')'' = prepareRegexPattern x @ sourceTail xs"
  by (induction xs arbitrary: x) simp_all

lemma newRegExp_pattern:
  "newRegExp (prepareRegexPattern x) =
     (case readTokens (patternTokens x) (Frame [] [] NoAtom) of
        Inl e \<Rightarrow> Inl e
      | Inr f \<Rightarrow> Inr (closeFrame f))"
proof -
  have "readPattern (PState Normal (Frame [] [] NoAtom) []) (render (patternTokens x) @ []) =
          (case readTokens (patternTokens x) (Frame [] [] NoAtom) of
             Inl e \<Rightarrow> Inl e
           | Inr f \<Rightarrow> readPattern (PState (if patternTokens x = [] then Normal else Normal) f []) [])"
    by (rule readPattern_tokens [OF wellFormed_patternTokens]) simp
  then show ?thesis
    by (simp add: newRegExp_def prepareRegexPattern_tokens split: sum.splits)
qed

lemma readTokens_ok:
  "(\<exists>f. readTokens (patternTokens x) (Frame [] [] NoAtom) = Inr f) \<longleftrightarrow> patternOk x"
  using readTokens_outcome [of "patternTokens x" "Frame [] [] NoAtom"]
  by (simp add: patternOk_def)

lemma readTokens_not_ok:
  "\<not> patternOk x \<Longrightarrow> readTokens (patternTokens x) (Frame [] [] NoAtom) = Inl NothingToRepeat"
  using readTokens_outcome [of "patternTokens x" "Frame [] [] NoAtom"] readTokens_ok [of x]
  by (cases "readTokens (patternTokens x) (Frame [] [] NoAtom)") auto

lemma readPattern_group:
  "readPattern (PState AfterOpen (Frame [] [] NoAtom) (g # stack))
               (prepareRegexPattern x @ CHR '')'' # rest) =
     (if patternOk x
      then readPattern (PState Normal (addAtom (patternGroup x) g) stack) rest
      else Inl NothingToRepeat)"
proof -
  have inst: "readPattern (PState AfterOpen (Frame [] [] NoAtom) (g # stack))
                    (render (patternTokens x) @ CHR '')'' # rest) =
          (case readTokens (patternTokens x) (Frame [] [] NoAtom) of
             Inl e \<Rightarrow> Inl e
           | Inr f' \<Rightarrow> readPattern (PState (if patternTokens x = [] then AfterOpen else Normal) f'
                                  (g # stack)) (CHR '')'' # rest))"
    by (rule readPattern_tokens [OF wellFormed_patternTokens]) simp
  show ?thesis
proof (cases "patternOk x")
  case False
  have "readPattern (PState AfterOpen (Frame [] [] NoAtom) (g # stack))
                    (render (patternTokens x) @ CHR '')'' # rest) = Inl NothingToRepeat"
    using inst readTokens_not_ok [OF False]
    by simp
  with False show ?thesis by (simp add: prepareRegexPattern_tokens)
next
  case True
  then obtain f where f: "readTokens (patternTokens x) (Frame [] [] NoAtom) = Inr f"
    using readTokens_ok by blast
  then have grp: "patternGroup x = Group (closeFrame f)"
    by (simp add: patternGroup_def newRegExp_pattern)
  have "readPattern (PState AfterOpen (Frame [] [] NoAtom) (g # stack))
                    (render (patternTokens x) @ CHR '')'' # rest) =
        readPattern (PState (if patternTokens x = [] then AfterOpen else Normal) f (g # stack))
                    (CHR '')'' # rest)"
    using inst f
    by simp
  also have "\<dots> = readPattern (PState Normal (addAtom (Group (closeFrame f)) g) stack) rest"
    by (simp add: stepNormal_def)
  finally show ?thesis
    using True grp by (simp add: prepareRegexPattern_tokens)
qed
qed

lemma readPattern_groups:
  "readPattern (PState AfterOpen (Frame [] [] NoAtom) [Frame as ts q])
               (prepareRegexPattern x @ sourceTail ys) =
     (if patternOk x \<and> list_all patternOk ys
      then Inr (mkAlt (rev as @ mkSeq (rev (patternGroup x # ts))
                        # map (\<lambda>y. mkSeq [patternGroup y]) ys))
      else Inl NothingToRepeat)"
proof (induction ys arbitrary: x as ts q)
  case Nil
  show ?case
    using readPattern_group [of "Frame as ts q" "[]" x "[]"]
    by simp
next
  case (Cons y ys)
  have "readPattern (PState AfterOpen (Frame [] [] NoAtom) [Frame as ts q])
          (prepareRegexPattern x @ sourceTail (y # ys)) =
        (if patternOk x
         then readPattern (PState Normal (addAtom (patternGroup x) (Frame as ts q)) [])
                (''|('' @ prepareRegexPattern y @ sourceTail ys)
         else Inl NothingToRepeat)"
    using readPattern_group [of "Frame as ts q" "[]" x "''|('' @ prepareRegexPattern y @ sourceTail ys"]
    by simp
  also have "readPattern (PState Normal (addAtom (patternGroup x) (Frame as ts q)) [])
                (''|('' @ prepareRegexPattern y @ sourceTail ys) =
             readPattern (PState AfterOpen (Frame [] [] NoAtom)
                            [Frame (mkSeq (rev (patternGroup x # ts)) # as) [] NoAtom])
                (prepareRegexPattern y @ sourceTail ys)"
    by (simp add: stepNormal_def)
  finally show ?case
    by (simp add: Cons.IH)
qed

lemma compilePatterns_outcome:
  "compilePatterns (x # xs) =
     (if list_all patternOk (x # xs)
      then Inr (mkAlt (mkSeq [BOL, patternGroup x] # map (\<lambda>y. mkSeq [patternGroup y]) xs))
      else Inl NothingToRepeat)"
proof -
  have "regexSource (x # xs) = ''^('' @ prepareRegexPattern x @ sourceTail xs"
    using join_sourceTail [of x xs] by (simp add: regexSource_def)
  then have "newRegExp (regexSource (x # xs)) =
               readPattern (PState AfterOpen (Frame [] [] NoAtom) [Frame [] [BOL] NoAtom])
                 (prepareRegexPattern x @ sourceTail xs)"
    by (simp add: newRegExp_def stepNormal_def)
  then show ?thesis
    by (simp add: compilePatterns_def readPattern_groups)
qed

lemma stringIncludes_skip:
  "pat \<noteq> [] \<Longrightarrow> hd pat \<notin> set w \<Longrightarrow> stringIncludes (w @ s) pat = stringIncludes s pat"
proof (induction w)
  case Nil
  then show ?case by simp
next
  case (Cons c w)
  then have "\<not> startsWith (c # w @ s) pat"
    by (cases pat) (auto simp: startsWith_def)
  with Cons show ?case by simp
qed

lemma starsOk_includes:
  "list_all wellFormed ts \<Longrightarrow>
   starsOk b ts \<longleftrightarrow> (b \<or> ts = [] \<or> hd ts \<noteq> StarT) \<and> \<not> stringIncludes (render ts) ''**''"
proof (induction ts arbitrary: b)
  case Nil
  then show ?case by simp
next
  case (Cons t ts)
  then have wf: "wellFormed t" "list_all wellFormed ts" by simp_all
  show ?case
  proof (cases "t = StarT")
    case True
    have "startsWith (CHR ''*'' # render ts) ''**'' \<longleftrightarrow> ts \<noteq> [] \<and> hd ts = StarT"
      using render_starts_star [OF wf(2)] by (simp only: startsWith_two_stars simp_thms)
    with True Cons.IH [OF wf(2), of False] show ?thesis
      by auto
  next
    case False
    with wf(1) have "CHR ''*'' \<notin> set (render1 t)"
      using render1_no_star [of t] by simp
    then have "stringIncludes (render1 t @ render ts) ''**'' = stringIncludes (render ts) ''**''"
      using stringIncludes_skip [of "''**''" "render1 t" "render ts"] by simp
    with False Cons.IH [OF wf(2), of True] show ?thesis
      by simp
  qed
qed

lemma segFirst_head: "segFirst ts = [] \<or> hd (segFirst ts) \<noteq> StarT"
  by (cases ts) simp_all

lemma patternOk_iff: "patternOk x \<longleftrightarrow> \<not> stringIncludes (prepareRegexPattern x) ''**''"
  using starsOk_includes [OF wellFormed_patternTokens, of False x]
        segFirst_head [of "anyFirst (map tokenOf x)"]
  by (simp add: patternOk_def prepareRegexPattern_tokens patternTokens_def)

lemma sortPatterns_partition:
  "sortPatterns acc ign ps =
     (acc @ map patternBody (filter (\<lambda>p. startsWith p ''!'') ps),
      ign @ map patternBody (filter (\<lambda>p. \<not> startsWith p ''!'') ps))"
  by (induction ps arbitrary: acc ign) (simp_all add: Let_def patternBody_def)

lemma compilePatterns_cases:
  "compilePatterns xs =
     (if list_all patternOk xs
      then Inr (case xs of
                  [] \<Rightarrow> sentinel
                | x # ys \<Rightarrow> mkAlt (mkSeq [BOL, patternGroup x] # map (\<lambda>y. mkSeq [patternGroup y]) ys))
      else Inl NothingToRepeat)"
proof (cases xs)
  case Nil
  then show ?thesis by (simp add: compilePatterns_def)
next
  case (Cons x ys)
  then show ?thesis by (simp only: compilePatterns_outcome list.case)
qed

lemma toRegex_outcome:
  "(\<forall>e. toRegex ps = Inl e \<longrightarrow> e = NothingToRepeat) \<and>
   ((\<exists>r. toRegex ps = Inr r) \<longleftrightarrow> list_all (\<lambda>p. patternOk (patternBody p)) ps)"
proof -
  obtain acc ign where s: "sortPatterns [] [] ps = (acc, ign)"
    by (cases "sortPatterns [] [] ps")
  then have acc: "acc = map patternBody (filter (\<lambda>p. startsWith p ''!'') ps)"
    and ign: "ign = map patternBody (filter (\<lambda>p. \<not> startsWith p ''!'') ps)"
    by (simp_all add: sortPatterns_partition)
  have all: "list_all (\<lambda>p. patternOk (patternBody p)) ps \<longleftrightarrow>
             list_all patternOk acc \<and> list_all patternOk ign"
    unfolding acc ign by (auto simp: list_all_iff)
  show ?thesis
    unfolding all
    by (simp add: toRegex_def s compilePatterns_cases [of acc] compilePatterns_cases [of ign])
qed

text \<open>
  Claim C10.  The claim: \<^verbatim>\<open>toRegex\<close> is total, the expressions it assembles are always
  valid, and construction never fails.  The code: \<^verbatim>\<open>prepareRegexPattern\<close> escapes with
  \<^verbatim>\<open>replaceAll\<close> but translates the wildcards with \<^verbatim>\<open>replace\<close>, which changes the first
  occurrence only; every later star stays in the source text as a quantifier, and where it
  follows another star it has nothing to repeat and \<^verbatim>\<open>new RegExp\<close> throws.  The pattern
  \<^verbatim>\<open>**/**/**\<close> is prepared to \<^verbatim>\<open>(.+)\/([^\/]+)*\/**\<close>, and \<^verbatim>\<open>toRegex\<close> fails on it, as
  it does on \<^verbatim>\<open>**/foo/**/bar/**\<close>.
\<close>

theorem toRegex_leftover_stars_throw:
  "prepareRegexPattern ''**/**/**'' =
     ''(.+)'' @ [BSL] @ ''/([^'' @ [BSL] @ ''/]+)*'' @ [BSL] @ ''/**'' \<and>
   toRegex [''**/**/**''] = Inl NothingToRepeat \<and>
   toRegex [''**/foo/**/bar/**''] = Inl NothingToRepeat"
  by code_simp

lemma toRegex_five_stars: "toRegex [''*****''] = Inl NothingToRepeat"
  by code_simp

lemma isAtomItem_isItem: "isAtomItem r \<Longrightarrow> isItem r"
  by (cases r) (simp_all add: isItem_def isAtomItem_def)

lemma readToken_itemFrame:
  "itemFrame f \<Longrightarrow> readToken t f = Inr f' \<Longrightarrow> itemFrame f'"
proof (cases t)
  case StarT
  assume "itemFrame f" "readToken t f = Inr f'"
  with StarT show ?thesis
    by (cases "(Star, f)" rule: quantify.cases) (auto simp: isItem_def)
next
  case (Lit c)
  assume "itemFrame f" "readToken t f = Inr f'"
  with Lit show ?thesis
    by (cases f) (auto simp: isItem_def isAtomItem_def)
next
  case (Esc c)
  assume "itemFrame f" "readToken t f = Inr f'"
  with Esc show ?thesis
    by (cases f) (auto simp: isItem_def isAtomItem_def)
next
  case AnyT
  assume "itemFrame f" "readToken t f = Inr f'"
  with AnyT show ?thesis
    by (cases f) (auto simp: isItem_def isAtomItem_def)
next
  case SegT
  assume "itemFrame f" "readToken t f = Inr f'"
  with SegT show ?thesis
    by (cases f) (auto simp: isItem_def isAtomItem_def)
qed

lemma readTokens_itemFrame:
  "itemFrame f \<Longrightarrow> readTokens ts f = Inr f' \<Longrightarrow> itemFrame f'"
proof (induction ts arbitrary: f)
  case Nil
  then show ?case by simp
next
  case (Cons t ts)
  then show ?case
    by (cases "readToken t f") (auto dest: readToken_itemFrame)
qed

lemma isItemSequence_mkSeq: "isItemSequence (mkSeq rs) = list_all isItem rs"
  by (induction rs) simp_all

lemma pattern_items:
  "newRegExp (prepareRegexPattern x) = Inr g \<Longrightarrow> isItemSequence g"
proof -
  assume g: "newRegExp (prepareRegexPattern x) = Inr g"
  then obtain f where f: "readTokens (patternTokens x) (Frame [] [] NoAtom) = Inr f"
    and c: "g = closeFrame f"
    by (auto simp: newRegExp_pattern split: sum.splits)
  have "itemFrame (Frame [] [] NoAtom)" by simp
  then have "itemFrame f" using f by (rule readTokens_itemFrame)
  with c show ?thesis
    by (cases f) (simp add: isItemSequence_mkSeq)
qed


text \<open>
  When \<^verbatim>\<open>toRegex\<close> fails and what it builds otherwise.  It returns a pair exactly when no
  prepared pattern holds two adjacent stars, and fails with "nothing to repeat" otherwise
  (never outside the fragment of patterns modelled here).  The expression of a non-empty
  partition is an alternation with one capture group for each pattern, in order, each group
  being the pattern read on its own; a group holds nothing but literal characters, the two
  wildcard groups, and such items under a star.
\<close>

lemma toRegex_total_iff:
  "(\<forall>e. toRegex ps = Inl e \<longrightarrow> e = NothingToRepeat) \<and>
   ((\<exists>r. toRegex ps = Inr r) \<longleftrightarrow>
      (\<forall>p \<in> set ps. \<not> stringIncludes (prepareRegexPattern (patternBody p)) ''**'')) \<and>
   (\<forall>r. compilePatterns (x # xs) = Inr r \<longrightarrow>
      r = mkAlt (mkSeq [BOL, patternGroup x] # map (\<lambda>y. mkSeq [patternGroup y]) xs)) \<and>
   (\<forall>g. newRegExp (prepareRegexPattern x) = Inr g \<longrightarrow> isItemSequence g)"
proof -
  have "\<forall>r. compilePatterns (x # xs) = Inr r \<longrightarrow>
      r = mkAlt (mkSeq [BOL, patternGroup x] # map (\<lambda>y. mkSeq [patternGroup y]) xs)"
    by (simp add: compilePatterns_outcome)
  moreover have "list_all (\<lambda>p. patternOk (patternBody p)) ps \<longleftrightarrow>
      (\<forall>p \<in> set ps. \<not> stringIncludes (prepareRegexPattern (patternBody p)) ''**'')"
    by (simp add: list_all_iff patternOk_iff)
  moreover have "\<forall>g. newRegExp (prepareRegexPattern x) = Inr g \<longrightarrow> isItemSequence g"
    by (blast intro: pattern_items)
  ultimately show ?thesis
    using toRegex_outcome [of ps] by simp
qed

lemma toRegex_total_iff_example:
  "\<not> stringIncludes (prepareRegexPattern (patternBody ''!/dist/**'')) ''**'' \<and>
   \<not> stringIncludes (prepareRegexPattern (patternBody ''*.l*g'')) ''**'' \<and>
   (\<exists>r. toRegex [''!/dist/**'', ''*.l*g''] = Inr r) \<and>
   compilePatterns [''dist/**'', ''*.l*g''] =
     Inr (mkAlt (mkSeq [BOL, patternGroup ''dist/**''] # map (\<lambda>y. mkSeq [patternGroup y]) [''*.l*g''])) \<and>
   newRegExp (prepareRegexPattern ''*.l*g'') =
     Inr (Seq (Group (Seq (Plus (CharClass True ''/'')) Empty))
           (Seq (Chr (CHR ''.'')) (Seq (Star (Chr (CHR ''l''))) (Seq (Chr (CHR ''g'')) Empty)))) \<and>
   isItemSequence (Seq (Group (Seq (Plus (CharClass True ''/'')) Empty))
           (Seq (Chr (CHR ''.'')) (Seq (Star (Chr (CHR ''l''))) (Seq (Chr (CHR ''g'')) Empty))))"
proof -
  note inst = toRegex_total_iff [of "[''!/dist/**'', ''*.l*g'']" "''*.l*g''" "[]"]
  note inst2 = toRegex_total_iff [of "[]" "''dist/**''" "[''*.l*g'']"]
  have h1: "\<not> stringIncludes (prepareRegexPattern (patternBody ''!/dist/**'')) ''**''"
    by code_simp
  have h2: "\<not> stringIncludes (prepareRegexPattern (patternBody ''*.l*g'')) ''**''"
    by code_simp
  from h1 h2 have h: "\<forall>p \<in> set [''!/dist/**'', ''*.l*g''].
      \<not> stringIncludes (prepareRegexPattern (patternBody p)) ''**''"
    by simp
  have "case compilePatterns [''dist/**'', ''*.l*g''] of Inl e \<Rightarrow> False | Inr r \<Rightarrow> True"
    by code_simp
  then have c: "\<exists>r. compilePatterns [''dist/**'', ''*.l*g''] = Inr r"
    by (cases "compilePatterns [''dist/**'', ''*.l*g'']") simp_all
  have g: "newRegExp (prepareRegexPattern ''*.l*g'') =
     Inr (Seq (Group (Seq (Plus (CharClass True ''/'')) Empty))
           (Seq (Chr (CHR ''.'')) (Seq (Star (Chr (CHR ''l''))) (Seq (Chr (CHR ''g'')) Empty))))"
    by code_simp
  from inst h have r: "\<exists>r. toRegex [''!/dist/**'', ''*.l*g''] = Inr r"
    by blast
  from inst2 c have s: "compilePatterns [''dist/**'', ''*.l*g''] =
     Inr (mkAlt (mkSeq [BOL, patternGroup ''dist/**''] # map (\<lambda>y. mkSeq [patternGroup y]) [''*.l*g'']))"
    by blast
  from inst g have i: "isItemSequence (Seq (Group (Seq (Plus (CharClass True ''/'')) Empty))
           (Seq (Chr (CHR ''.'')) (Seq (Star (Chr (CHR ''l''))) (Seq (Chr (CHR ''g'')) Empty))))"
    by blast
  from h1 h2 r s g i show ?thesis by blast
qed

section \<open>What a compiled expression matches\<close>

text \<open>
  The expression compiled from a partition tests its first pattern at index 0 only and every
  later pattern at every index of the candidate: the \<^verbatim>\<open>^\<close> of the source text belongs to
  the first alternative.
\<close>


lemma searchFrom_Alt:
  "searchFrom (Alt a b) atStart s \<longleftrightarrow> searchFrom a atStart s \<or> searchFrom b atStart s"
  by (induction s arbitrary: atStart) auto

lemma searchFrom_BOL_later: "\<not> searchFrom (Seq BOL r) False s"
  by (induction s) simp_all

lemma searchFrom_BOL:
  "searchFrom (Seq BOL r) True s \<longleftrightarrow> matcher r (True, s) (\<lambda>y. True)"
  by (cases s) (simp_all add: searchFrom_BOL_later)

lemma searchFrom_Seq_Empty: "searchFrom (Seq r Empty) atStart s = searchFrom r atStart s"
  by (induction s arbitrary: atStart) simp_all

lemma test_mkAlt:
  "test (mkAlt (a # as)) s \<longleftrightarrow> test a s \<or> (\<exists>b \<in> set as. test b s)"
proof (induction as arbitrary: a)
  case Nil
  then show ?case by simp
next
  case (Cons b bs)
  have "test (mkAlt (a # b # bs)) s \<longleftrightarrow> test a s \<or> test (mkAlt (b # bs)) s"
    by (simp add: test_def searchFrom_Alt)
  with Cons [of b] show ?case by auto
qed

lemma later_patterns_match_anywhere:
  assumes "compilePatterns (x # xs) = Inr r"
  shows "test r s \<longleftrightarrow>
           matcher (patternGroup x) (True, s) (\<lambda>y. True) \<or>
           (\<exists>y \<in> set xs. test (patternGroup y) s)"
proof -
  from assms have r: "r = mkAlt (mkSeq [BOL, patternGroup x] # map (\<lambda>y. mkSeq [patternGroup y]) xs)"
    by (simp add: compilePatterns_outcome split: if_splits)
  have first: "test (mkSeq [BOL, patternGroup x]) s \<longleftrightarrow> matcher (patternGroup x) (True, s) (\<lambda>y. True)"
    by (simp add: test_def searchFrom_BOL)
  have later: "\<And>y. test (Seq (patternGroup y) Empty) s \<longleftrightarrow> test (patternGroup y) s"
    by (simp add: test_def searchFrom_Seq_Empty)
  show ?thesis
    unfolding r test_mkAlt first by (simp add: later)
qed

text \<open>A star after the first stays a quantifier: \<^verbatim>\<open>*.l*g\<close> is prepared so that
  \<^verbatim>\<open>l*\<close> repeats the letter.\<close>

lemma later_star_is_quantifier:
  "(case toRegex [''*.l*g''] of
      Inl e \<Rightarrow> False
    | Inr r \<Rightarrow> \<not> ignore r ''a.log'' \<and> ignore r ''a.llg'' \<and> ignore r ''a.g'')"
  by code_simp

section \<open>The tests of the repository\<close>

text \<open>The model gives what the repository's tests and its README expect of
  \<^verbatim>\<open>convertIgnorePatternToMinimatch\<close> and \<^verbatim>\<open>ignore\<close>.\<close>

lemma convert_test_table:
  "map convertIgnorePatternToMinimatch
     ['''', ''**'', ''/**'', ''**/'', ''src/'', ''src'', ''src/**'', ''!src/'', ''!src'',
      ''!src/**'', ''*/foo.js'', ''*/foo.js/'', ''src/{a,b}.js'', ''src/?(a)b.js'', ''{.js'',
      ''(.js'', ''{(.js'', ''{bar}/{baz}'', [BSL] @ ''[foo]/{bar}/{baz}'',
      ''src/'' @ [BSL] @ ''{a}'', ''src/'' @ [BSL] @ ''(a)'', ''src/'' @ [BSL] @ ''{a}/{b}'',
      ''src/'' @ [BSL] @ ''(a)/(b)''] =
     ['''', ''**'', ''/**'', ''**/'', ''**/src/'', ''**/src'', ''src/**/*'', ''!**/src/'',
      ''!**/src'', ''!src/**/*'', ''*/foo.js'', ''*/foo.js/'', ''src/'' @ [BSL] @ ''{a,b}.js'',
      ''src/?'' @ [BSL] @ ''(a)b.js'', ''**/'' @ [BSL] @ ''{.js'', ''**/'' @ [BSL] @ ''(.js'',
      ''**/'' @ [BSL] @ ''{'' @ [BSL] @ ''(.js'', [BSL] @ ''{bar}/'' @ [BSL] @ ''{baz}'',
      [BSL] @ ''[foo]/'' @ [BSL] @ ''{bar}/'' @ [BSL] @ ''{baz}'', ''src/'' @ [BSL] @ ''{a}'',
      ''src/'' @ [BSL] @ ''(a)'', ''src/'' @ [BSL] @ ''{a}/'' @ [BSL] @ ''{b}'',
      ''src/'' @ [BSL] @ ''(a)/'' @ [BSL] @ ''(b)'']"
  by code_simp

lemma ignore_tests:
  "(case toRegex [''node_modules'', ''fixtures'', ''!fixtures/node_modules'', ''/dist'', ''*.log'',
                  ''.cache/'', ''.vuepress/dist'', ''*/foo.js'', ''dir/**''] of
      Inl e \<Rightarrow> False
    | Inr r \<Rightarrow> \<not> ignore r ''src/index.ts'' \<and> \<not> ignore r ''tsconfig.json'' \<and>
              \<not> ignore r ''/fixtures/node_modules'' \<and> ignore r ''/dist'' \<and>
              ignore r ''fixtures'' \<and> ignore r ''fixtures/test.ts'' \<and>
              \<not> ignore r ''fixtures/node_modules'')"
  by code_simp

lemma readme_example:
  "(case toRegex [''.abc/*'', ''!.abc/d/''] of
      Inl e \<Rightarrow> False
    | Inr r \<Rightarrow> ignore r ''.abc/a.js'' \<and> \<not> ignore r ''.abc/d/e.js'')"
  by code_simp

end
